theory Spec2Isabelle
  imports Main "HOL-Library.Word" "HOL-Library.Monad_Syntax"
begin

unbundle bit_operations_syntax

chapter \<open>Legal document studio: template engine and fallback encoders\<close>

text \<open>
  A shallow embedding of the template engine (\<open>processTemplate\<close>, \<open>validateVariables\<close>)
  and of the fallback encoders of the format route (\<open>generateFallbackPdf\<close>,
  \<open>createMinimalDocxZip\<close>, \<open>crc32\<close>).

  Conventions. A JavaScript string is the list of its UTF-16 code units, each a natural
  number below 65536. A \<open>Buffer\<close> is a list of bytes. The bitwise operators of
  JavaScript act on the 32-bit image of a number, so the numbers they produce are
  modelled as 32-bit words; \<open>>>>\<close> is the logical shift \<open>drop_bit\<close>.
\<close>

type_synonym byte = "8 word"
type_synonym u32 = "32 word"
type_synonym jsstring = "nat list"

section \<open>CRC-32\<close>

subsection \<open>The code: \<open>getCrc32Table\<close> and \<open>crc32\<close>\<close>

text \<open>
  The body of the inner loop of \<open>getCrc32Table\<close>:
  \<^verbatim>\<open>c = (c & 1) ? (0xEDB88320 ^ (c >>> 1)) : (c >>> 1)\<close>.
\<close>

definition crcTableStep :: "u32 \<Rightarrow> u32" where
  "crcTableStep c = (if c AND 1 \<noteq> 0 then 0xEDB88320 XOR drop_bit 1 c else drop_bit 1 c)"

text \<open>The entry for index \<open>i\<close>: \<open>c = i\<close>, then eight rounds of the inner loop.\<close>

definition crcTableEntry :: "nat \<Rightarrow> u32" where
  "crcTableEntry i = (crcTableStep ^^ 8) (of_nat i)"

text \<open>
  The table has the entries 0 to 255. The source keeps it in a module variable after the
  first call; the cached table is the same value, so the model recomputes it.
\<close>

definition getCrc32Table :: "u32 list" where
  "getCrc32Table = map crcTableEntry [0..<256]"

text \<open>
  The loop of \<open>crc32\<close> over the buffer:
  \<^verbatim>\<open>crc = (crc >>> 8) ^ table[(crc ^ buffer[i]) & 0xFF]\<close>.
\<close>

fun crc32_loop :: "u32 list \<Rightarrow> u32 \<Rightarrow> byte list \<Rightarrow> u32" where
  "crc32_loop table crc [] = crc"
| "crc32_loop table crc (b # bs) =
     crc32_loop table (drop_bit 8 crc XOR table ! unat ((crc XOR ucast b) AND 0xFF)) bs"

definition crc32 :: "byte list \<Rightarrow> u32" where
  "crc32 buffer = crc32_loop getCrc32Table 0xFFFFFFFF buffer XOR 0xFFFFFFFF"

subsection \<open>The reference: the bit-serial CRC-32 of IEEE 802.3 and zlib\<close>

text \<open>
  The reference follows the words of the specification, not the code: the register starts
  with all ones; each byte is added into the low end of the register, which is then
  shifted right eight times, one bit at a time, the reflected polynomial \<open>0xEDB88320\<close>
  being added whenever a one is shifted out; the final register is complemented.
\<close>

definition crc_shift_bit :: "u32 \<Rightarrow> u32" where
  "crc_shift_bit r = drop_bit 1 r XOR (if bit r 0 then 0xEDB88320 else 0)"

fun crc_shift_byte :: "u32 \<Rightarrow> byte \<Rightarrow> u32" where
  "crc_shift_byte r b = (crc_shift_bit ^^ 8) (r XOR ucast b)"

definition crc32_reference :: "byte list \<Rightarrow> u32" where
  "crc32_reference bs = NOT (foldl crc_shift_byte 0xFFFFFFFF bs)"

subsection \<open>The table-driven loop computes the reference\<close>

lemma crcTableStep_shift_bit: "crcTableStep c = crc_shift_bit c"
  by (simp add: crcTableStep_def crc_shift_bit_def and_one_eq bit_0 mod_2_eq_odd xor.commute)

text \<open>One shift is linear over exclusive or, and so are eight.\<close>

lemma crc_shift_bit_xor: "crc_shift_bit (x XOR y) = crc_shift_bit x XOR crc_shift_bit y"
  by (cases "bit x 0"; cases "bit y 0")
     (simp_all add: crc_shift_bit_def bit_xor_iff xor.assoc xor.commute xor.left_commute)

lemma crc_shift_pow_xor:
  "(crc_shift_bit ^^ n) (x XOR y) = (crc_shift_bit ^^ n) x XOR (crc_shift_bit ^^ n) y"
  by (induction n) (simp_all add: crc_shift_bit_xor)

text \<open>A register whose low byte is zero is only shifted: no one leaves it in eight steps.\<close>

lemma crc_shift_pow_high:
  "take_bit 8 h = 0 \<Longrightarrow> n \<le> 8 \<Longrightarrow> (crc_shift_bit ^^ n) h = drop_bit n h"
proof (induction n)
  case 0
  then show ?case by simp
next
  case (Suc n)
  from Suc.prems have "n < 8" by simp
  then have "bit (take_bit 8 h) n = bit h n" by (simp add: bit_take_bit_iff)
  with Suc.prems have nb: "\<not> bit h n" by simp
  have "(crc_shift_bit ^^ n) h = drop_bit n h" using Suc by simp
  then have "(crc_shift_bit ^^ Suc n) h = crc_shift_bit (drop_bit n h)" by simp
  also have "\<dots> = drop_bit 1 (drop_bit n h)"
    using nb by (simp add: crc_shift_bit_def bit_drop_bit_eq)
  finally show ?case by simp
qed

lemma u32_split_low_byte: "(x :: u32) = push_bit 8 (drop_bit 8 x) XOR take_bit 8 x"
  by (rule bit_eqI) (auto simp: bit_simps)

lemma crc_shift_byte_split:
  "(crc_shift_bit ^^ 8) x = drop_bit 8 x XOR (crc_shift_bit ^^ 8) (take_bit 8 x)"
proof -
  have "(crc_shift_bit ^^ 8) x =
      (crc_shift_bit ^^ 8) (push_bit 8 (drop_bit 8 x)) XOR (crc_shift_bit ^^ 8) (take_bit 8 x)"
    using crc_shift_pow_xor [of 8 "push_bit 8 (drop_bit 8 x)" "take_bit 8 x"]
      u32_split_low_byte [of x]
    by simp
  moreover have "(crc_shift_bit ^^ 8) (push_bit 8 (drop_bit 8 x)) = drop_bit 8 x"
  proof -
    have z: "take_bit 8 (push_bit 8 (drop_bit 8 x)) = 0"
      by (simp add: take_bit_push_bit)
    have "(crc_shift_bit ^^ 8) (push_bit 8 (drop_bit 8 x)) =
        drop_bit 8 (push_bit 8 (drop_bit 8 x))"
      by (rule crc_shift_pow_high [OF z]) simp
    also have "\<dots> = drop_bit 8 x"
      by (rule bit_eqI) (auto simp: bit_simps dest: bit_imp_le_length)
    finally show ?thesis .
  qed
  ultimately show ?thesis by simp
qed

lemma getCrc32Table_nth:
  assumes "i < 256"
  shows "getCrc32Table ! i = (crc_shift_bit ^^ 8) (of_nat i)"
proof -
  have "crcTableStep = crc_shift_bit" by (rule ext) (rule crcTableStep_shift_bit)
  then show ?thesis using assms by (simp add: getCrc32Table_def crcTableEntry_def)
qed

text \<open>The index \<open>(crc ^ buffer[i]) & 0xFF\<close> is always inside the table.\<close>

lemma crc_table_index:
  fixes x :: u32
  shows "unat (x AND 0xFF) < 256" and "of_nat (unat (x AND 0xFF)) = take_bit 8 x"
proof -
  have m: "x AND 0xFF = take_bit 8 x"
    using take_bit_eq_mask [of 8 x] by (simp add: mask_eq_exp_minus_1)
  have "take_bit 8 (unat x) < 2 ^ 8"
    by (rule take_bit_nat_less_exp)
  then have "unat (take_bit 8 x) < 2 ^ 8"
    by (simp add: unsigned_take_bit_eq)
  then show "unat (x AND 0xFF) < 256" by (simp add: m)
  show "of_nat (unat (x AND 0xFF)) = take_bit 8 x" by (simp add: m)
qed

lemma drop_bit_xor_byte: "drop_bit 8 (crc XOR ucast (b :: byte)) = drop_bit 8 (crc :: u32)"
proof -
  have "drop_bit 8 (ucast b :: u32) = 0"
    by (rule bit_eqI) (auto simp: bit_simps dest: bit_imp_le_length)
  then show ?thesis by simp
qed

lemma crc32_loop_step:
  "drop_bit 8 crc XOR getCrc32Table ! unat ((crc XOR ucast b) AND 0xFF) = crc_shift_byte crc b"
proof -
  let ?x = "crc XOR ucast b"
  have "getCrc32Table ! unat (?x AND 0xFF) = (crc_shift_bit ^^ 8) (take_bit 8 ?x)"
    using getCrc32Table_nth [OF crc_table_index(1) [of ?x]] crc_table_index(2) [of ?x]
    by simp
  then show ?thesis
    using crc_shift_byte_split [of ?x] drop_bit_xor_byte [of crc b] by simp
qed

lemma crc32_loop_foldl: "crc32_loop getCrc32Table crc bs = foldl crc_shift_byte crc bs"
proof (induction bs arbitrary: crc)
  case Nil
  show ?case by simp
next
  case (Cons b bs)
  have "crc32_loop getCrc32Table crc (b # bs) =
        crc32_loop getCrc32Table (crc_shift_byte crc b) bs"
    using crc32_loop_step [of crc b] by simp
  then show ?case using Cons.IH by simp
qed

lemma u32_xor_all_ones: "(x :: u32) XOR 0xFFFFFFFF = NOT x"
proof -
  have "(0xFFFFFFFF :: u32) = - 1" by simp
  then have "x XOR 0xFFFFFFFF = x XOR (- 1)" by (rule arg_cong)
  then show ?thesis by (simp only: bit.xor_one_right)
qed

text \<open>
  Claim C4. For every byte sequence, \<open>crc32\<close> returns the standard CRC-32 of IEEE 802.3
  and zlib: the table-driven loop with the reflected polynomial \<open>0xEDB88320\<close>, started
  with all ones and complemented at the end, equals the bit-serial reference on all inputs.
\<close>

theorem crc32_equals_reference: "crc32 bs = crc32_reference bs"
  by (simp only: crc32_def crc32_reference_def crc32_loop_foldl u32_xor_all_ones)

text \<open>The check value of the standard: the CRC-32 of the ASCII digits \<open>123456789\<close>.\<close>

lemma funpow_8: "(f ^^ 8) x = f (f (f (f (f (f (f (f x)))))))"
  by (simp add: eval_nat_numeral)

lemma crc32_check_value: "crc32 [49, 50, 51, 52, 53, 54, 55, 56, 57] = 0xCBF43926"
  unfolding crc32_def crc32_loop_foldl by (simp add: funpow_8 crc_shift_bit_def)

section \<open>Strings and buffers\<close>

text \<open>An ASCII literal as a JavaScript string.\<close>

definition js :: "string \<Rightarrow> jsstring" where
  "js s = map of_char s"

text \<open>
  \<open>Buffer.from(s, 'utf-8')\<close>: the UTF-8 encoding of a string of UTF-16 code units. A
  surrogate pair encodes its code point in four bytes; a surrogate that stands alone is
  replaced by U+FFFD, three bytes.
\<close>

fun utf8_encode :: "jsstring \<Rightarrow> byte list" where
  "utf8_encode [] = []"
| "utf8_encode (c # cs) =
     (if c < 0x80 then [of_nat c] @ utf8_encode cs
      else if c < 0x800 then [of_nat (0xC0 + c div 64), of_nat (0x80 + c mod 64)] @ utf8_encode cs
      else if 0xD800 \<le> c \<and> c < 0xDC00 then
        (case cs of
           [] \<Rightarrow> [0xEF, 0xBF, 0xBD]
         | d # ds \<Rightarrow>
             if 0xDC00 \<le> d \<and> d < 0xE000 then
               (let p = 0x10000 + (c - 0xD800) * 1024 + (d - 0xDC00) in
                [of_nat (0xF0 + p div 262144), of_nat (0x80 + (p div 4096) mod 64),
                 of_nat (0x80 + (p div 64) mod 64), of_nat (0x80 + p mod 64)] @ utf8_encode ds)
             else [0xEF, 0xBF, 0xBD] @ utf8_encode cs)
      else if 0xDC00 \<le> c \<and> c < 0xE000 then [0xEF, 0xBF, 0xBD] @ utf8_encode cs
      else [of_nat (0xE0 + c div 4096), of_nat (0x80 + (c div 64) mod 64),
            of_nat (0x80 + c mod 64)] @ utf8_encode cs)"

text \<open>
  \<open>Buffer.alloc\<close> gives zero bytes. The \<open>write\<close> methods throw a \<open>RangeError\<close> when the
  value does not fit the field or the field does not fit the buffer: that is the result
  \<open>None\<close>. \<open>source.copy(target, targetStart)\<close> copies as much of \<open>source\<close> as fits.
\<close>

definition Buffer_alloc :: "nat \<Rightarrow> byte list" where
  "Buffer_alloc n = replicate n 0"

definition writeUInt16LE :: "nat \<Rightarrow> nat \<Rightarrow> byte list \<Rightarrow> byte list option" where
  "writeUInt16LE v off buf =
     (if v < 2 ^ 16 \<and> off + 2 \<le> length buf
      then Some (take off buf @ [of_nat (v mod 256), of_nat (v div 256)] @ drop (off + 2) buf)
      else None)"

definition writeUInt32LE :: "nat \<Rightarrow> nat \<Rightarrow> byte list \<Rightarrow> byte list option" where
  "writeUInt32LE v off buf =
     (if v < 2 ^ 32 \<and> off + 4 \<le> length buf
      then Some (take off buf @
                 [of_nat (v mod 256), of_nat (v div 256 mod 256),
                  of_nat (v div 65536 mod 256), of_nat (v div 16777216)] @
                 drop (off + 4) buf)
      else None)"

definition Buffer_copy :: "byte list \<Rightarrow> byte list \<Rightarrow> nat \<Rightarrow> byte list" where
  "Buffer_copy source target targetStart =
     take targetStart target @ take (length target - targetStart) source @
     drop (targetStart + length source) target"


section \<open>The ZIP container of the fallback DOCX\<close>

subsection \<open>The code: \<open>createMinimalDocxZip\<close>\<close>

text \<open>
  The body of the loop over \<open>files\<close> builds, for one file, the local header followed by
  the content, and the central directory header; the writes are those of the source, in
  its order.
\<close>

definition localHeaderOf :: "byte list \<Rightarrow> byte list \<Rightarrow> byte list option" where
  "localHeaderOf nameBuffer content = do {
     b \<leftarrow> Some (Buffer_alloc (30 + length nameBuffer + length content));
     b \<leftarrow> writeUInt32LE 0x04034b50 0 b;
     b \<leftarrow> writeUInt16LE 20 4 b;
     b \<leftarrow> writeUInt16LE 0 6 b;
     b \<leftarrow> writeUInt16LE 0 8 b;
     b \<leftarrow> writeUInt16LE 0 10 b;
     b \<leftarrow> writeUInt16LE 0 12 b;
     b \<leftarrow> writeUInt32LE (unat (crc32 content)) 14 b;
     b \<leftarrow> writeUInt32LE (length content) 18 b;
     b \<leftarrow> writeUInt32LE (length content) 22 b;
     b \<leftarrow> writeUInt16LE (length nameBuffer) 26 b;
     b \<leftarrow> writeUInt16LE 0 28 b;
     b \<leftarrow> Some (Buffer_copy nameBuffer b 30);
     Some (Buffer_copy content b (30 + length nameBuffer))
   }"

definition centralHeaderOf :: "byte list \<Rightarrow> byte list \<Rightarrow> nat \<Rightarrow> byte list option" where
  "centralHeaderOf nameBuffer content offset = do {
     b \<leftarrow> Some (Buffer_alloc (46 + length nameBuffer));
     b \<leftarrow> writeUInt32LE 0x02014b50 0 b;
     b \<leftarrow> writeUInt16LE 20 4 b;
     b \<leftarrow> writeUInt16LE 20 6 b;
     b \<leftarrow> writeUInt16LE 0 8 b;
     b \<leftarrow> writeUInt16LE 0 10 b;
     b \<leftarrow> writeUInt16LE 0 12 b;
     b \<leftarrow> writeUInt16LE 0 14 b;
     b \<leftarrow> writeUInt32LE (unat (crc32 content)) 16 b;
     b \<leftarrow> writeUInt32LE (length content) 20 b;
     b \<leftarrow> writeUInt32LE (length content) 24 b;
     b \<leftarrow> writeUInt16LE (length nameBuffer) 28 b;
     b \<leftarrow> writeUInt16LE 0 30 b;
     b \<leftarrow> writeUInt16LE 0 32 b;
     b \<leftarrow> writeUInt16LE 0 34 b;
     b \<leftarrow> writeUInt16LE 0 36 b;
     b \<leftarrow> writeUInt32LE 0 38 b;
     b \<leftarrow> writeUInt32LE offset 42 b;
     Some (Buffer_copy nameBuffer b 46)
   }"

record zip_acc =
  localHeaders :: "byte list list"
  centralHeaders :: "byte list list"
  offset :: nat

definition zipFile :: "zip_acc \<Rightarrow> jsstring \<times> jsstring \<Rightarrow> zip_acc option" where
  "zipFile acc file = do {
     content \<leftarrow> Some (utf8_encode (snd file));
     nameBuffer \<leftarrow> Some (utf8_encode (fst file));
     localHeader \<leftarrow> localHeaderOf nameBuffer content;
     centralHeader \<leftarrow> centralHeaderOf nameBuffer content (offset acc);
     Some \<lparr>localHeaders = localHeaders acc @ [localHeader],
           centralHeaders = centralHeaders acc @ [centralHeader],
           offset = offset acc + length localHeader\<rparr>
   }"

fun zipFiles :: "zip_acc \<Rightarrow> (jsstring \<times> jsstring) list \<Rightarrow> zip_acc option" where
  "zipFiles acc [] = Some acc"
| "zipFiles acc (file # files) = do { acc' \<leftarrow> zipFile acc file; zipFiles acc' files }"

definition endOfCentralDirOf :: "nat \<Rightarrow> nat \<Rightarrow> nat \<Rightarrow> byte list option" where
  "endOfCentralDirOf fileCount centralDirSize centralDirOffset = do {
     b \<leftarrow> Some (Buffer_alloc 22);
     b \<leftarrow> writeUInt32LE 0x06054b50 0 b;
     b \<leftarrow> writeUInt16LE 0 4 b;
     b \<leftarrow> writeUInt16LE 0 6 b;
     b \<leftarrow> writeUInt16LE fileCount 8 b;
     b \<leftarrow> writeUInt16LE fileCount 10 b;
     b \<leftarrow> writeUInt32LE centralDirSize 12 b;
     b \<leftarrow> writeUInt32LE centralDirOffset 16 b;
     writeUInt16LE 0 20 b
   }"

definition docxFiles :: "jsstring \<Rightarrow> jsstring \<Rightarrow> jsstring \<Rightarrow> jsstring \<Rightarrow> (jsstring \<times> jsstring) list" where
  "docxFiles contentTypes rels documentRels documentContent =
     [(js ''[Content_Types].xml'', contentTypes),
      (js ''_rels/.rels'', rels),
      (js ''word/_rels/document.xml.rels'', documentRels),
      (js ''word/document.xml'', documentContent)]"

definition createMinimalDocxZip ::
  "jsstring \<Rightarrow> jsstring \<Rightarrow> jsstring \<Rightarrow> jsstring \<Rightarrow> byte list option" where
  "createMinimalDocxZip contentTypes rels documentRels documentContent = do {
     files \<leftarrow> Some (docxFiles contentTypes rels documentRels documentContent);
     acc \<leftarrow> zipFiles \<lparr>localHeaders = [], centralHeaders = [], offset = 0\<rparr> files;
     centralDirOffset \<leftarrow> Some (offset acc);
     centralDirSize \<leftarrow> Some (foldl (\<lambda>sum h. sum + length h) 0 (centralHeaders acc));
     endOfCentralDir \<leftarrow> endOfCentralDirOf (length files) centralDirSize centralDirOffset;
     Some (concat (localHeaders acc @ centralHeaders acc @ [endOfCentralDir]))
   }"


subsection \<open>What a reader of the archive checks\<close>

text \<open>
  \<open>readUInt16LE\<close> and \<open>readUInt32LE\<close> read a little-endian field, \<open>None\<close> outside the
  buffer; \<open>subarray\<close> is the byte range from \<open>start\<close> up to \<open>end\<close>.
\<close>

fun le_decode :: "byte list \<Rightarrow> nat" where
  "le_decode [] = 0"
| "le_decode (b # bs) = unat b + 256 * le_decode bs"

definition readUInt16LE :: "byte list \<Rightarrow> nat \<Rightarrow> nat option" where
  "readUInt16LE buf off =
     (if off + 2 \<le> length buf then Some (le_decode (take 2 (drop off buf))) else None)"

definition readUInt32LE :: "byte list \<Rightarrow> nat \<Rightarrow> nat option" where
  "readUInt32LE buf off =
     (if off + 4 \<le> length buf then Some (le_decode (take 4 (drop off buf))) else None)"

definition subarray :: "byte list \<Rightarrow> nat \<Rightarrow> nat \<Rightarrow> byte list" where
  "subarray buf start end = take (end - start) (drop start buf)"

text \<open>
  The local record of an entry at offset \<open>at\<close>: signature, stored method, the CRC-32 of the
  content, both sizes equal to the content length, the name, and then the content itself.
\<close>

definition localEntryOk :: "byte list \<Rightarrow> nat \<Rightarrow> byte list \<Rightarrow> byte list \<Rightarrow> bool" where
  "localEntryOk out at nameBuffer content \<longleftrightarrow>
     readUInt32LE out at = Some 0x04034b50 \<and>
     readUInt16LE out (at + 8) = Some 0 \<and>
     readUInt32LE out (at + 14) = Some (unat (crc32 content)) \<and>
     readUInt32LE out (at + 18) = Some (length content) \<and>
     readUInt32LE out (at + 22) = Some (length content) \<and>
     readUInt16LE out (at + 26) = Some (length nameBuffer) \<and>
     readUInt16LE out (at + 28) = Some 0 \<and>
     subarray out (at + 30) (at + 30 + length nameBuffer) = nameBuffer \<and>
     subarray out (at + 30 + length nameBuffer) (at + 30 + length nameBuffer + length content)
       = content"

text \<open>
  The central directory record of the entry at offset \<open>at\<close>: the same CRC-32 and sizes, and
  the offset \<open>localAt\<close> of the local record.
\<close>

definition centralEntryOk ::
  "byte list \<Rightarrow> nat \<Rightarrow> byte list \<Rightarrow> byte list \<Rightarrow> nat \<Rightarrow> bool" where
  "centralEntryOk out at nameBuffer content localAt \<longleftrightarrow>
     readUInt32LE out at = Some 0x02014b50 \<and>
     readUInt16LE out (at + 10) = Some 0 \<and>
     readUInt32LE out (at + 16) = Some (unat (crc32 content)) \<and>
     readUInt32LE out (at + 20) = Some (length content) \<and>
     readUInt32LE out (at + 24) = Some (length content) \<and>
     readUInt16LE out (at + 28) = Some (length nameBuffer) \<and>
     readUInt16LE out (at + 30) = Some 0 \<and>
     readUInt16LE out (at + 32) = Some 0 \<and>
     readUInt32LE out (at + 42) = Some localAt \<and>
     subarray out (at + 46) (at + 46 + length nameBuffer) = nameBuffer"

text \<open>
  The entries in order: each local record starts where the previous local block (header,
  name and content) ends, each central record where the previous central record ends, and
  the central record points at the local one.
\<close>

fun entriesOk :: "byte list \<Rightarrow> nat \<Rightarrow> nat \<Rightarrow> (byte list \<times> byte list) list \<Rightarrow> bool" where
  "entriesOk out localAt centralAt [] = True"
| "entriesOk out localAt centralAt ((nameBuffer, content) # es) =
     (localEntryOk out localAt nameBuffer content \<and>
      centralEntryOk out centralAt nameBuffer content localAt \<and>
      entriesOk out (localAt + 30 + length nameBuffer + length content)
        (centralAt + 46 + length nameBuffer) es)"

definition localSize :: "(byte list \<times> byte list) list \<Rightarrow> nat" where
  "localSize es = sum_list (map (\<lambda>(n, c). 30 + length n + length c) es)"

definition centralSize :: "(byte list \<times> byte list) list \<Rightarrow> nat" where
  "centralSize es = sum_list (map (\<lambda>(n, c). 46 + length n) es)"

text \<open>
  The whole archive: the local blocks from offset 0, the central directory right after
  them, and the end record right after the directory, giving the number of entries, the
  size of the directory and its offset; nothing follows the end record.
\<close>

definition archiveOk :: "byte list \<Rightarrow> (byte list \<times> byte list) list \<Rightarrow> bool" where
  "archiveOk out es \<longleftrightarrow>
     entriesOk out 0 (localSize es) es \<and>
     readUInt32LE out (localSize es + centralSize es) = Some 0x06054b50 \<and>
     readUInt16LE out (localSize es + centralSize es + 8) = Some (length es) \<and>
     readUInt16LE out (localSize es + centralSize es + 10) = Some (length es) \<and>
     readUInt32LE out (localSize es + centralSize es + 12) = Some (centralSize es) \<and>
     readUInt32LE out (localSize es + centralSize es + 16) = Some (localSize es) \<and>
     readUInt16LE out (localSize es + centralSize es + 20) = Some 0 \<and>
     length out = localSize es + centralSize es + 22"


subsection \<open>The layout of the emitted stream\<close>

definition u16le :: "nat \<Rightarrow> byte list" where
  "u16le v = [of_nat (v mod 256), of_nat (v div 256)]"

definition u32le :: "nat \<Rightarrow> byte list" where
  "u32le v = [of_nat (v mod 256), of_nat (v div 256 mod 256),
                  of_nat (v div 65536 mod 256), of_nat (v div 16777216)]"

lemma length_le [simp]: "length (u16le v) = 2" "length (u32le v) = 4"
  by (simp_all add: u16le_def u32le_def)

lemma unat_of_nat_byte: "n < 256 \<Longrightarrow> unat (of_nat n :: byte) = n"
  by (simp add: unat_of_nat)

lemma le_decode_u16le: "v < 65536 \<Longrightarrow> le_decode (u16le v) = v"
  by (simp add: u16le_def unat_of_nat_byte)

lemma le_decode_u32le:
  assumes "v < 4294967296"
  shows "le_decode (u32le v) = v"
proof -
  have d2: "v div 65536 = v div 256 div 256" by (simp add: div_mult2_eq [symmetric])
  have d3: "v div 16777216 = v div 256 div 256 div 256" by (simp add: div_mult2_eq [symmetric])
  from assms have "v div 16777216 < 256" by simp
  then have "le_decode (u32le v) =
      v mod 256 + 256 * (v div 256 mod 256 + 256 * (v div 65536 mod 256 + 256 * (v div 16777216)))"
    by (simp add: u32le_def unat_of_nat_byte)
  also have "\<dots> = v" unfolding d2 d3 by simp
  finally show ?thesis .
qed

lemma writeUInt16LE_eq: "v < 65536 \<Longrightarrow> off + 2 \<le> length buf \<Longrightarrow>
   writeUInt16LE v off buf = Some (take off buf @ u16le v @ drop (off + 2) buf)"
  by (simp add: writeUInt16LE_def u16le_def)

lemma writeUInt32LE_eq: "v < 4294967296 \<Longrightarrow> off + 4 \<le> length buf \<Longrightarrow>
   writeUInt32LE v off buf = Some (take off buf @ u32le v @ drop (off + 4) buf)"
  by (simp add: writeUInt32LE_def u32le_def)

lemma crc32_lt: "unat (crc32 c) < 4294967296"
  using unsigned_less [of "crc32 c", where 'a = nat] by simp

definition localBlock :: "byte list \<Rightarrow> byte list \<Rightarrow> byte list" where
  "localBlock n c = u32le 0x04034b50 @ u16le 20 @ u16le 0 @ u16le 0 @ u16le 0 @ u16le 0 @
          u32le (unat (crc32 c)) @ u32le (length c) @ u32le (length c) @
          u16le (length n) @ u16le 0 @ n @ c"

definition centralBlock :: "byte list \<Rightarrow> byte list \<Rightarrow> nat \<Rightarrow> byte list" where
  "centralBlock n c off = u32le 0x02014b50 @ u16le 20 @ u16le 20 @ u16le 0 @ u16le 0 @
          u16le 0 @ u16le 0 @ u32le (unat (crc32 c)) @ u32le (length c) @ u32le (length c) @
          u16le (length n) @ u16le 0 @ u16le 0 @ u16le 0 @ u16le 0 @ u32le 0 @ u32le off @ n"

definition endBlock :: "nat \<Rightarrow> nat \<Rightarrow> nat \<Rightarrow> byte list" where
  "endBlock k sz off = u32le 0x06054b50 @ u16le 0 @ u16le 0 @ u16le k @ u16le k @
          u32le sz @ u32le off @ u16le 0"

lemma writeUInt16LE_boundary:
  "length pre = off \<Longrightarrow> v < 65536 \<Longrightarrow> 2 \<le> length rest \<Longrightarrow>
   writeUInt16LE v off (pre @ rest) = Some ((pre @ u16le v) @ drop 2 rest)"
  by (simp add: writeUInt16LE_def u16le_def)

lemma writeUInt32LE_boundary:
  "length pre = off \<Longrightarrow> v < 4294967296 \<Longrightarrow> 4 \<le> length rest \<Longrightarrow>
   writeUInt32LE v off (pre @ rest) = Some ((pre @ u32le v) @ drop 4 rest)"
  by (simp add: writeUInt32LE_def u32le_def)

lemma Buffer_copy_boundary:
  "length pre = off \<Longrightarrow> length source \<le> length rest \<Longrightarrow>
   Buffer_copy source (pre @ rest) off = (pre @ source) @ drop (length source) rest"
  by (simp add: Buffer_copy_def)

lemma localHeaderOf_eq:
  assumes "length c < 2 ^ 32" "length n < 2 ^ 16"
  shows "localHeaderOf n c = Some (localBlock n c)"
proof -
  have a: "Buffer_alloc (30 + length n + length c) = [] @ replicate (30 + length n + length c) 0"
    by (simp add: Buffer_alloc_def)
  show ?thesis
    using assms
    apply (simp only: localHeaderOf_def a)
    apply (simp del: append_assoc append_Nil append_Nil2
      add: writeUInt16LE_boundary writeUInt32LE_boundary Buffer_copy_boundary crc32_lt)
    apply (simp add: localBlock_def)
    done
qed

lemma centralHeaderOf_eq:
  assumes "length c < 2 ^ 32" "length n < 2 ^ 16" "off < 2 ^ 32"
  shows "centralHeaderOf n c off = Some (centralBlock n c off)"
proof -
  have a: "Buffer_alloc (46 + length n) = [] @ replicate (46 + length n) 0"
    by (simp add: Buffer_alloc_def)
  show ?thesis
    using assms 
    apply (simp only: centralHeaderOf_def a)
    apply (simp del: append_assoc append_Nil append_Nil2
      add: writeUInt16LE_boundary writeUInt32LE_boundary Buffer_copy_boundary crc32_lt)
    apply (simp add: centralBlock_def)
    done
qed

lemma endOfCentralDirOf_eq:
  assumes "k < 2 ^ 16" "sz < 2 ^ 32" "off < 2 ^ 32"
  shows "endOfCentralDirOf k sz off = Some (endBlock k sz off)"
proof -
  have a: "Buffer_alloc 22 = [] @ replicate 22 0"
    by (simp add: Buffer_alloc_def)
  show ?thesis
    using assms
    apply (simp only: endOfCentralDirOf_def a)
    apply (simp del: append_assoc append_Nil append_Nil2
      add: writeUInt16LE_boundary writeUInt32LE_boundary crc32_lt)
    apply (simp add: endBlock_def)
    done
qed

lemma length_localBlock [simp]: "length (localBlock n c) = 30 + length n + length c"
  by (simp add: localBlock_def)

lemma length_centralBlock [simp]: "length (centralBlock n c off) = 46 + length n"
  by (simp add: centralBlock_def)

lemma length_endBlock [simp]: "length (endBlock k sz off) = 22"
  by (simp add: endBlock_def)


lemma readUInt16LE_shift: "readUInt16LE (pre @ xs) (length pre + k) = readUInt16LE xs k"
  by (simp add: readUInt16LE_def)

lemma readUInt32LE_shift: "readUInt32LE (pre @ xs) (length pre + k) = readUInt32LE xs k"
  by (simp add: readUInt32LE_def)

lemma subarray_shift:
  "subarray (pre @ xs) (length pre + i) (length pre + j) = subarray xs i j"
  by (simp add: subarray_def)

lemma readUInt16LE_here: "v < 65536 \<Longrightarrow> readUInt16LE (u16le v @ xs) 0 = Some v"
  by (simp add: readUInt16LE_def le_decode_u16le)

lemma readUInt32LE_here: "v < 4294967296 \<Longrightarrow> readUInt32LE (u32le v @ xs) 0 = Some v"
  by (simp add: readUInt32LE_def le_decode_u32le)

lemma readUInt16LE_skip:
  "length pre = k \<Longrightarrow> v < 65536 \<Longrightarrow> readUInt16LE (pre @ u16le v @ xs) k = Some v"
  using readUInt16LE_shift [of pre "u16le v @ xs" 0] by (simp add: readUInt16LE_here)

lemma readUInt32LE_skip:
  "length pre = k \<Longrightarrow> v < 4294967296 \<Longrightarrow> readUInt32LE (pre @ u32le v @ xs) k = Some v"
  using readUInt32LE_shift [of pre "u32le v @ xs" 0] by (simp add: readUInt32LE_here)

lemma subarray_skip:
  "length pre = i \<Longrightarrow> j = i + length ys \<Longrightarrow> subarray (pre @ ys @ xs) i j = ys"
  by (simp add: subarray_def)

lemma localEntryOk_block:
  assumes "length c < 2 ^ 32" "length n < 2 ^ 16"
  shows "localEntryOk (localBlock n c @ post) 0 n c"
  using assms
  by (simp add: localEntryOk_def localBlock_def readUInt32LE_def readUInt16LE_def subarray_def
      le_decode_u32le le_decode_u16le crc32_lt)

lemma centralEntryOk_block:
  assumes "length c < 2 ^ 32" "length n < 2 ^ 16" "off < 2 ^ 32"
  shows "centralEntryOk (centralBlock n c off @ post) 0 n c off"
  using assms
  by (simp add: centralEntryOk_def centralBlock_def readUInt32LE_def readUInt16LE_def subarray_def
      le_decode_u32le le_decode_u16le crc32_lt)


fun centralBlocks :: "nat \<Rightarrow> (byte list \<times> byte list) list \<Rightarrow> byte list list" where
  "centralBlocks off [] = []"
| "centralBlocks off ((n, c) # es) =
     centralBlock n c off # centralBlocks (off + 30 + length n + length c) es"

definition localBlocks :: "(byte list \<times> byte list) list \<Rightarrow> byte list list" where
  "localBlocks es = map (\<lambda>(n, c). localBlock n c) es"

definition encodeFiles :: "(jsstring \<times> jsstring) list \<Rightarrow> (byte list \<times> byte list) list" where
  "encodeFiles files = map (\<lambda>(n, c). (utf8_encode n, utf8_encode c)) files"

definition sizesOk :: "(byte list \<times> byte list) list \<Rightarrow> bool" where
  "sizesOk es = list_all (\<lambda>(n, c). length n < 2 ^ 16) es"

lemma length_concat_localBlocks [simp]: "length (concat (localBlocks es)) = localSize es"
  by (induction es) (auto simp: localBlocks_def localSize_def)

lemma length_concat_centralBlocks [simp]:
  "length (concat (centralBlocks off es)) = centralSize es"
  by (induction es arbitrary: off) (auto simp: centralSize_def)

lemma localEntryOk_shift:
  "localEntryOk (pre @ xs) (length pre) n c = localEntryOk xs 0 n c"
  by (simp add: localEntryOk_def readUInt32LE_def readUInt16LE_def subarray_def)

lemma centralEntryOk_shift:
  "centralEntryOk (pre @ xs) (length pre) n c off = centralEntryOk xs 0 n c off"
  by (simp add: centralEntryOk_def readUInt32LE_def readUInt16LE_def subarray_def)

lemma entriesOk_layout:
  assumes "sizesOk es" "length pre + localSize es < 2 ^ 32"
  shows "entriesOk (pre @ concat (localBlocks es) @ mid @ concat (centralBlocks (length pre) es) @ post)
           (length pre) (length pre + localSize es + length mid) es"
  using assms
proof (induction es arbitrary: pre mid)
  case Nil
  show ?case by simp
next
  case (Cons e es)
  obtain n c where e: "e = (n, c)" by (cases e)
  let ?L = "localBlock n c"
  let ?C = "centralBlock n c (length pre)"
  let ?out = "pre @ concat (localBlocks (e # es)) @ mid @
      concat (centralBlocks (length pre) (e # es)) @ post"
  let ?tail = "concat (centralBlocks (length pre + 30 + length n + length c) es) @ post"
  from Cons.prems have n: "length n < 2 ^ 16" and es: "sizesOk es"
    by (simp_all add: sizesOk_def e)
  from Cons.prems have sz: "length pre + (30 + length n + length c) + localSize es < 2 ^ 32"
    by (simp add: localSize_def e)
  then have c: "length c < 2 ^ 32" and off: "length pre < 2 ^ 32" by simp_all
  have o1: "?out = pre @ ?L @ (concat (localBlocks es) @ mid @ ?C @ ?tail)"
    by (simp add: e localBlocks_def)
  have o2: "?out = (pre @ ?L @ concat (localBlocks es) @ mid) @ ?C @ ?tail"
    by (simp add: e localBlocks_def)
  have o3: "?out = (pre @ ?L) @ concat (localBlocks es) @ (mid @ ?C) @
      concat (centralBlocks (length (pre @ ?L)) es) @ post"
    by (simp add: e localBlocks_def add.assoc)
  have "localEntryOk ?out (length pre) n c"
    unfolding o1 localEntryOk_shift by (rule localEntryOk_block [OF c n])
  moreover have "centralEntryOk ?out (length pre + localSize (e # es) + length mid) n c (length pre)"
  proof -
    have "length pre + localSize (e # es) + length mid =
        length (pre @ ?L @ concat (localBlocks es) @ mid)"
      by (simp add: e localSize_def)
    then show ?thesis
      unfolding o2 using centralEntryOk_block [OF c n off] by (simp only: centralEntryOk_shift)
  qed
  moreover have "entriesOk ?out (length pre + 30 + length n + length c)
      (length pre + localSize (e # es) + length mid + 46 + length n) es"
  proof -
    have "length (pre @ ?L) + localSize es < 2 ^ 32" using sz by simp
    from Cons.IH [OF es this, of "mid @ ?C"]
    have ih: "entriesOk ?out (length (pre @ ?L))
        (length (pre @ ?L) + localSize es + length (mid @ ?C)) es"
      unfolding o3 .
    have e1: "length (pre @ ?L) = length pre + 30 + length n + length c" by simp
    have e2: "length (pre @ ?L) + localSize es + length (mid @ ?C) =
        length pre + localSize (e # es) + length mid + 46 + length n"
      by (simp add: e localSize_def)
    show ?thesis using ih by (simp only: e2 [symmetric] e1 [symmetric])
  qed
  ultimately show ?case by (simp add: e)
qed

lemma zipFiles_eq:
  assumes "sizesOk (encodeFiles files)" "offset acc + localSize (encodeFiles files) < 2 ^ 32"
  shows "zipFiles acc files =
    Some \<lparr>localHeaders = localHeaders acc @ localBlocks (encodeFiles files),
          centralHeaders = centralHeaders acc @ centralBlocks (offset acc) (encodeFiles files),
          offset = offset acc + localSize (encodeFiles files)\<rparr>"
  using assms
proof (induction files arbitrary: acc)
  case Nil
  show ?case by (simp add: encodeFiles_def localBlocks_def localSize_def)
next
  case (Cons f files)
  obtain fn fc where f: "f = (fn, fc)" by (cases f)
  let ?n = "utf8_encode fn" and ?c = "utf8_encode fc"
  from Cons.prems have n: "length ?n < 2 ^ 16" and es: "sizesOk (encodeFiles files)"
    by (simp_all add: sizesOk_def encodeFiles_def f)
  from Cons.prems
  have sz: "offset acc + (30 + length ?n + length ?c) + localSize (encodeFiles files) < 2 ^ 32"
    by (simp add: localSize_def encodeFiles_def f)
  then have c: "length ?c < 2 ^ 32" and off: "offset acc < 2 ^ 32" by simp_all
  let ?acc' = "\<lparr>localHeaders = localHeaders acc @ [localBlock ?n ?c],
           centralHeaders = centralHeaders acc @ [centralBlock ?n ?c (offset acc)],
           offset = offset acc + length (localBlock ?n ?c)\<rparr>"
  have step: "zipFile acc f = Some ?acc'"
    by (simp add: zipFile_def f localHeaderOf_eq [OF c n] centralHeaderOf_eq [OF c n off])
  have "offset ?acc' + localSize (encodeFiles files) < 2 ^ 32" using sz by simp
  from Cons.IH [OF es this] step show ?case
    by (simp add: encodeFiles_def localBlocks_def localSize_def f add.assoc)
qed

lemma foldl_length_sum: "foldl (\<lambda>sum h. sum + length h) k hs = k + length (concat hs)"
  by (induction hs arbitrary: k) simp_all

lemma docx_names: "sizesOk (encodeFiles (docxFiles a b c d))"
  "centralSize (encodeFiles (docxFiles a b c d)) = 259"
  by (simp_all add: sizesOk_def encodeFiles_def docxFiles_def js_def centralSize_def)

text \<open>
  The four entries of the archive as a reader finds them: the names are ASCII, the stored
  content is the UTF-8 encoding of the string. The local blocks take 30 bytes of header
  each, the 75 bytes of the four names and the contents.
\<close>

lemma docx_entries:
  "encodeFiles (docxFiles contentTypes rels documentRels documentContent) =
     [(map of_char ''[Content_Types].xml'', utf8_encode contentTypes),
      (map of_char ''_rels/.rels'', utf8_encode rels),
      (map of_char ''word/_rels/document.xml.rels'', utf8_encode documentRels),
      (map of_char ''word/document.xml'', utf8_encode documentContent)]"
  by (simp add: encodeFiles_def docxFiles_def js_def)

lemma docx_localSize:
  "localSize (encodeFiles (docxFiles contentTypes rels documentRels documentContent)) =
     195 + length (utf8_encode contentTypes) + length (utf8_encode rels) +
     length (utf8_encode documentRels) + length (utf8_encode documentContent)"
  by (simp add: docx_entries localSize_def)

text \<open>
  Claim C3. Every archive produced by \<open>createMinimalDocxZip\<close> holds exactly the four
  entries \<open>[Content_Types].xml\<close>, \<open>_rels/.rels\<close>, \<open>word/_rels/document.xml.rels\<close> and
  \<open>word/document.xml\<close>, in this order. For each of them the CRC-32 in the local header and
  in the central directory header is the CRC-32 of the stored content, compressed and
  uncompressed size equal the content length in both, and the central record's offset is
  the sum of the lengths of the preceding local blocks. The end record, the last 22 bytes,
  counts 4 entries on this disk and 4 in total, and gives the size and the offset of the
  central directory as emitted. The archive is produced whenever the local blocks together
  stay below \<open>2^32\<close> bytes (otherwise \<open>writeUInt32LE\<close> throws).
\<close>

theorem createMinimalDocxZip_consistent:
  assumes "195 + length (utf8_encode contentTypes) + length (utf8_encode rels) +
     length (utf8_encode documentRels) + length (utf8_encode documentContent) < 2 ^ 32"
  shows "\<exists>out. createMinimalDocxZip contentTypes rels documentRels documentContent = Some out \<and>
     archiveOk out
       [(map of_char ''[Content_Types].xml'', utf8_encode contentTypes),
        (map of_char ''_rels/.rels'', utf8_encode rels),
        (map of_char ''word/_rels/document.xml.rels'', utf8_encode documentRels),
        (map of_char ''word/document.xml'', utf8_encode documentContent)] \<and>
     readUInt16LE out (length out - 22 + 8) = Some 4 \<and>
     readUInt16LE out (length out - 22 + 10) = Some 4"
proof -
  let ?files = "docxFiles contentTypes rels documentRels documentContent"
  let ?es = "encodeFiles ?files"
  let ?E = "endBlock 4 (centralSize ?es) (localSize ?es)"
  let ?out = "concat (localBlocks ?es) @ concat (centralBlocks 0 ?es) @ ?E"
  have small: "localSize ?es < 2 ^ 32" using assms by (simp only: docx_localSize)
  have len: "length ?files = 4" "length ?es = 4" by (simp_all add: docxFiles_def encodeFiles_def)
  have loop: "zipFiles \<lparr>localHeaders = [], centralHeaders = [], offset = 0\<rparr> ?files =
      Some \<lparr>localHeaders = localBlocks ?es, centralHeaders = centralBlocks 0 ?es,
            offset = localSize ?es\<rparr>"
    using zipFiles_eq [of ?files "\<lparr>localHeaders = [], centralHeaders = [], offset = 0\<rparr>"]
      docx_names(1) small by simp
  have eocd: "endOfCentralDirOf 4 (centralSize ?es) (localSize ?es) = Some ?E"
    using small by (intro endOfCentralDirOf_eq) (simp_all add: docx_names(2))
  have run: "createMinimalDocxZip contentTypes rels documentRels documentContent = Some ?out"
    by (simp add: createMinimalDocxZip_def loop foldl_length_sum len eocd)
  have entries: "entriesOk ?out 0 (localSize ?es) ?es"
    using entriesOk_layout [of ?es "[]" "[]" ?E] docx_names(1) small by simp
  have split: "?out = (concat (localBlocks ?es) @ concat (centralBlocks 0 ?es)) @ ?E" by simp
  have at: "localSize ?es + centralSize ?es =
      length (concat (localBlocks ?es) @ concat (centralBlocks 0 ?es))" by simp
  have ok: "archiveOk ?out ?es"
    unfolding archiveOk_def
    apply (intro conjI)
           apply (rule entries)
    using small
          apply (simp_all only: split at readUInt32LE_shift readUInt16LE_shift)
          apply (simp_all add: endBlock_def readUInt32LE_def readUInt16LE_def le_decode_u32le
        le_decode_u16le docx_names(2) len)
    done
  then have size: "length ?out = localSize ?es + centralSize ?es + 22"
    and count1: "readUInt16LE ?out (localSize ?es + centralSize ?es + 8) = Some (length ?es)"
    and count2: "readUInt16LE ?out (localSize ?es + centralSize ?es + 10) = Some (length ?es)"
    by (simp_all only: archiveOk_def)
  have at_end: "length ?out - 22 = localSize ?es + centralSize ?es"
    by (simp only: size diff_add_inverse2)
  have "readUInt16LE ?out (length ?out - 22 + 8) = Some 4"
    "readUInt16LE ?out (length ?out - 22 + 10) = Some 4"
    by (simp_all only: at_end count1 count2 len)
  with run ok show ?thesis by (simp only: docx_entries) blast
qed

theorem createMinimalDocxZip_consistent_witness:
  "195 + length (utf8_encode (js ''<Types/>'')) + length (utf8_encode (js ''<Relationships/>'')) +
     length (utf8_encode []) + length (utf8_encode [8226]) < (2::nat) ^ 32 \<and>
   (\<exists>out.
      createMinimalDocxZip (js ''<Types/>'') (js ''<Relationships/>'') [] [8226] = Some out \<and>
      archiveOk out
        [(map of_char ''[Content_Types].xml'', utf8_encode (js ''<Types/>'')),
         (map of_char ''_rels/.rels'', utf8_encode (js ''<Relationships/>'')),
         (map of_char ''word/_rels/document.xml.rels'', utf8_encode []),
         (map of_char ''word/document.xml'', utf8_encode [8226])] \<and>
      readUInt16LE out (length out - 22 + 8) = Some 4 \<and>
      readUInt16LE out (length out - 22 + 10) = Some 4)"
proof -
  have small:
    "195 + length (utf8_encode (js ''<Types/>'')) + length (utf8_encode (js ''<Relationships/>'')) +
     length (utf8_encode []) + length (utf8_encode [8226]) < (2::nat) ^ 32"
    by (simp add: js_def)
  from small createMinimalDocxZip_consistent [OF small] show ?thesis by (rule conjI)
qed

section \<open>Regular expressions\<close>

text \<open>
  The patterns of the source are JavaScript regular expressions without the flags \<open>i\<close>
  and \<open>u\<close>. They are embedded as terms of a small pattern language, and matching as the
  backtracking search of the ECMAScript specification: all the ways a pattern can match at
  a position, in the order in which backtracking tries them, the match being the first.
\<close>

subsection \<open>Character classes\<close>

text \<open>
  \<open>\s\<close> is white space and line terminators, \<open>\w\<close> is \<open>[A-Za-z0-9_]\<close>, \<open>.\<close> is any
  code unit but a line terminator, \<open>[\s\S]\<close> is any code unit.
\<close>

definition isLineTerminator :: "nat \<Rightarrow> bool" where
  "isLineTerminator c = (c = 0x0A \<or> c = 0x0D \<or> c = 0x2028 \<or> c = 0x2029)"

definition isWhiteSpace :: "nat \<Rightarrow> bool" where
  "isWhiteSpace c =
     (c = 0x09 \<or> c = 0x0A \<or> c = 0x0B \<or> c = 0x0C \<or> c = 0x0D \<or> c = 0x20 \<or> c = 0xA0 \<or>
      c = 0x1680 \<or> (0x2000 \<le> c \<and> c \<le> 0x200A) \<or> c = 0x2028 \<or> c = 0x2029 \<or>
      c = 0x202F \<or> c = 0x205F \<or> c = 0x3000 \<or> c = 0xFEFF)"

definition isWordChar :: "nat \<Rightarrow> bool" where
  "isWordChar c =
     ((0x30 \<le> c \<and> c \<le> 0x39) \<or> (0x41 \<le> c \<and> c \<le> 0x5A) \<or> c = 0x5F \<or>
      (0x61 \<le> c \<and> c \<le> 0x7A))"

datatype cclass = Space | Word | AnyChar | Dot | Char nat

fun inClass :: "cclass \<Rightarrow> nat \<Rightarrow> bool" where
  "inClass Space c = isWhiteSpace c"
| "inClass Word c = isWordChar c"
| "inClass AnyChar c = True"
| "inClass Dot c = (\<not> isLineTerminator c)"
| "inClass (Char d) c = (c = d)"

subsection \<open>Patterns\<close>

text \<open>
  \<open>Lit\<close> is a run of literal characters; \<open>Rep cl mn mx g\<close> is the class \<open>cl\<close> repeated
  at least \<open>mn\<close> and at most \<open>mx\<close> times (\<open>None\<close>: unbounded), greedy or lazy;
  \<open>Group i r\<close> is the \<open>i\<close>-th capturing group; \<open>Opt r\<close> is \<open>(?:r)?\<close>; \<open>Cat\<close> is
  sequence and \<open>Alt\<close> is \<open>|\<close>; \<open>LineStart\<close> and \<open>LineEnd\<close> are \<open>^\<close> and \<open>$\<close> under the
  flag \<open>m\<close>, \<open>InputStart\<close> and \<open>InputEnd\<close> without it. \<open>seq\<close> writes a sequence as a list.
\<close>

datatype greed = Greedy | Lazy

datatype regex =
    Lit jsstring
  | Rep cclass nat "nat option" greed
  | Group nat regex
  | Opt regex
  | Cat regex regex
  | Alt regex regex
  | LineStart
  | LineEnd
  | InputStart
  | InputEnd

definition seq :: "regex list \<Rightarrow> regex" where
  "seq rs = foldr Cat rs (Lit [])"

subsection \<open>All matches, in backtracking order\<close>

text \<open>
  A result is the text consumed, the character before the position reached (if any), the
  rest of the input, and the captures made so far (the latest first).
\<close>

type_synonym captures = "(nat \<times> jsstring) list"
type_synonym mres = "jsstring \<times> nat option \<times> jsstring \<times> captures"

text \<open>
  A repeated class (the \<open>RepeatMatcher\<close> of the specification): a greedy repetition tries
  one more character before it tries to stop, a lazy one stops before it tries one more.
\<close>

fun repeatMatches ::
  "cclass \<Rightarrow> greed \<Rightarrow> nat \<Rightarrow> nat option \<Rightarrow> nat option \<Rightarrow> jsstring \<Rightarrow> captures \<Rightarrow>
   (jsstring \<times> nat option \<times> jsstring \<times> captures) list" where
  "repeatMatches cl g mn mx prev [] caps = (if mn = 0 then [([], prev, [], caps)] else [])"
| "repeatMatches cl g mn mx prev (c # cs) caps =
     (case g of
        Greedy \<Rightarrow>
          (if inClass cl c \<and> mx \<noteq> Some 0
           then map (\<lambda>(u, p, r, caps'). (c # u, p, r, caps'))
                  (repeatMatches cl g (mn - 1) (map_option (\<lambda>m. m - 1) mx) (Some c) cs caps)
           else []) @
          (if mn = 0 then [([], prev, c # cs, caps)] else [])
      | Lazy \<Rightarrow>
          (if mn = 0 then [([], prev, c # cs, caps)] else []) @
          (if inClass cl c \<and> mx \<noteq> Some 0
           then map (\<lambda>(u, p, r, caps'). (c # u, p, r, caps'))
                  (repeatMatches cl g (mn - 1) (map_option (\<lambda>m. m - 1) mx) (Some c) cs caps)
           else []))"

fun lastOr :: "nat option \<Rightarrow> jsstring \<Rightarrow> nat option" where
  "lastOr prev [] = prev"
| "lastOr prev (c # cs) = lastOr (Some c) cs"

fun matches :: "regex \<Rightarrow> nat option \<Rightarrow> jsstring \<Rightarrow> captures \<Rightarrow> mres list" where
  "matches (Lit l) prev rest caps =
     (if take (length l) rest = l then [(l, lastOr prev l, drop (length l) rest, caps)] else [])"
| "matches (Rep cl mn mx g) prev rest caps = repeatMatches cl g mn mx prev rest caps"
| "matches (Group i r) prev rest caps =
     map (\<lambda>(u, p, r, cs). (u, p, r, (i, u) # cs)) (matches r prev rest caps)"
| "matches (Opt r) prev rest caps =
     filter (\<lambda>(u, p, r, cs). u \<noteq> []) (matches r prev rest caps) @ [([], prev, rest, caps)]"
| "matches (Cat r1 r2) prev rest caps =
     concat (map (\<lambda>(u1, p1, rest1, caps1).
                    map (\<lambda>(u2, p2, rest2, caps2). (u1 @ u2, p2, rest2, caps2))
                      (matches r2 p1 rest1 caps1))
               (matches r1 prev rest caps))"
| "matches (Alt r1 r2) prev rest caps = matches r1 prev rest caps @ matches r2 prev rest caps"
| "matches LineStart prev rest caps =
     (case prev of None \<Rightarrow> [([], prev, rest, caps)]
      | Some c \<Rightarrow> if isLineTerminator c then [([], prev, rest, caps)] else [])"
| "matches LineEnd prev rest caps =
     (case rest of [] \<Rightarrow> [([], prev, rest, caps)]
      | c # _ \<Rightarrow> if isLineTerminator c then [([], prev, rest, caps)] else [])"
| "matches InputStart prev rest caps =
     (case prev of None \<Rightarrow> [([], prev, rest, caps)] | Some c \<Rightarrow> [])"
| "matches InputEnd prev rest caps =
     (case rest of [] \<Rightarrow> [([], prev, rest, caps)] | c # _ \<Rightarrow> [])"

subsection \<open>The match at a position and global replacement\<close>

text \<open>
  \<open>matchAt re rbefore rest\<close> is the match of \<open>re\<close> that starts exactly where \<open>rest\<close>
  starts; \<open>rbefore\<close> is the text before that position, last character first. The record
  holds what a replacement can use: the matched text, the captures, the text before the
  match (last character first) and the text after it.
\<close>

record js_match =
  matched :: jsstring
  captured :: captures
  preceding :: jsstring
  after :: jsstring

definition matchAt :: "regex \<Rightarrow> jsstring \<Rightarrow> jsstring \<Rightarrow> js_match option" where
  "matchAt re rbefore rest =
     (case matches re (case rbefore of [] \<Rightarrow> None | c # _ \<Rightarrow> Some c) rest [] of
        [] \<Rightarrow> None
      | (u, p, r, caps) # _ \<Rightarrow>
          Some \<lparr>matched = u, captured = caps, preceding = rbefore, after = r\<rparr>)"

lemma repeatMatches_split:
  "(u, p, r, cs) \<in> set (repeatMatches cl g mn mx prev rest caps) \<Longrightarrow> rest = u @ r \<and> cs = caps"
  by (induction cl g mn mx prev rest caps arbitrary: u p r rule: repeatMatches.induct)
     (auto split: if_splits greed.splits)

lemma matches_split: "(u, p, r, cs) \<in> set (matches re prev rest caps) \<Longrightarrow> rest = u @ r"
proof (induction re arbitrary: u p r cs prev rest caps)
  case (Lit l)
  then show ?case by (auto split: if_splits) (metis append_take_drop_id)
next
  case (Rep cl mn mx g)
  then show ?case by (auto dest: repeatMatches_split)
next
  case (Cat r1 r2)
  then show ?case by fastforce
qed (auto split: option.splits list.splits if_splits)

lemma matchAt_split:
  "matchAt re rbefore rest = Some m \<Longrightarrow> rest = matched m @ after m"
proof -
  assume a: "matchAt re rbefore rest = Some m"
  then obtain u p r caps xs where
    ms: "matches re (case rbefore of [] \<Rightarrow> None | c # _ \<Rightarrow> Some c) rest [] = (u, p, r, caps) # xs"
    and m: "m = \<lparr>matched = u, captured = caps, preceding = rbefore, after = r\<rparr>"
    by (auto simp: matchAt_def split: list.splits)
  from ms have "(u, p, r, caps) \<in> set (matches re (case rbefore of [] \<Rightarrow> None | c # _ \<Rightarrow> Some c) rest [])"
    by simp
  then have "rest = u @ r" by (rule matches_split)
  then show ?thesis by (simp add: m)
qed

text \<open>
  \<open>String.prototype.replace\<close> with a pattern that has the flag \<open>g\<close>: the matches are
  searched from left to right and do not overlap; after an empty match the search resumes
  one character further. \<open>f\<close> computes the replacement of a match.
\<close>

function replaceLoop :: "regex \<Rightarrow> (js_match \<Rightarrow> jsstring) \<Rightarrow> jsstring \<Rightarrow> jsstring \<Rightarrow> jsstring" where
  "replaceLoop re f rbefore rest =
     (case matchAt re rbefore rest of
        None \<Rightarrow>
          (case rest of [] \<Rightarrow> [] | c # cs \<Rightarrow> c # replaceLoop re f (c # rbefore) cs)
      | Some m \<Rightarrow>
          if matched m = []
          then f m @ (case rest of [] \<Rightarrow> [] | c # cs \<Rightarrow> c # replaceLoop re f (c # rbefore) cs)
          else f m @ replaceLoop re f (rev (matched m) @ rbefore) (after m))"
  by pat_completeness auto
termination
proof (relation "measure (\<lambda>(re, f, rbefore, rest). length rest)")
  show "wf (measure (\<lambda>(re, f, rbefore, rest). length rest))" by simp
next
  fix re :: regex and f :: "js_match \<Rightarrow> jsstring" and rbefore rest :: jsstring and m
  assume "matchAt re rbefore rest = Some m" "matched m \<noteq> []"
  then show "((re, f, rev (matched m) @ rbefore, after m), (re, f, rbefore, rest))
      \<in> measure (\<lambda>(re, f, rbefore, rest). length rest)"
    using matchAt_split [of re rbefore rest m] by (cases "matched m") auto
qed auto

definition replaceAll :: "regex \<Rightarrow> (js_match \<Rightarrow> jsstring) \<Rightarrow> jsstring \<Rightarrow> jsstring" where
  "replaceAll re f s = replaceLoop re f [] s"

subsection \<open>The first match, by continuation\<close>

text \<open>
  The same search written with a continuation, as the specification does: it stops at the
  first way that lets the rest of the pattern match. It is proved equal to the head of the
  list of all matches, and serves to evaluate \<open>matchAt\<close> on concrete strings.
\<close>

type_synonym cont = "mres \<Rightarrow> mres option"

fun firstOf :: "cont \<Rightarrow> mres list \<Rightarrow> mres option" where
  "firstOf k [] = None"
| "firstOf k (x # xs) = (case k x of Some y \<Rightarrow> Some y | None \<Rightarrow> firstOf k xs)"

fun repeatFirst ::
  "cclass \<Rightarrow> greed \<Rightarrow> nat \<Rightarrow> nat option \<Rightarrow> cont \<Rightarrow> jsstring \<Rightarrow> nat option \<Rightarrow> jsstring \<Rightarrow> captures \<Rightarrow>
   mres option" where
  "repeatFirst cl g mn mx k u prev [] caps = (if mn = 0 then k (u, prev, [], caps) else None)"
| "repeatFirst cl g mn mx k u prev (c # cs) caps =
     (case g of
        Greedy \<Rightarrow>
          (case (if inClass cl c \<and> mx \<noteq> Some 0
                 then repeatFirst cl g (mn - 1) (map_option (\<lambda>m. m - 1) mx) k (u @ [c]) (Some c) cs caps
                 else None) of
             Some y \<Rightarrow> Some y
           | None \<Rightarrow> if mn = 0 then k (u, prev, c # cs, caps) else None)
      | Lazy \<Rightarrow>
          (case (if mn = 0 then k (u, prev, c # cs, caps) else None) of
             Some y \<Rightarrow> Some y
           | None \<Rightarrow>
               if inClass cl c \<and> mx \<noteq> Some 0
               then repeatFirst cl g (mn - 1) (map_option (\<lambda>m. m - 1) mx) k (u @ [c]) (Some c) cs caps
               else None))"

fun firstMatch :: "regex \<Rightarrow> cont \<Rightarrow> jsstring \<Rightarrow> nat option \<Rightarrow> jsstring \<Rightarrow> captures \<Rightarrow> mres option" where
  "firstMatch (Lit l) k u prev rest caps =
     (if take (length l) rest = l then k (u @ l, lastOr prev l, drop (length l) rest, caps) else None)"
| "firstMatch (Rep cl mn mx g) k u prev rest caps = repeatFirst cl g mn mx k u prev rest caps"
| "firstMatch (Group i r) k u prev rest caps =
     firstMatch r (\<lambda>(u', p', r', cs'). k (u', p', r', (i, drop (length u) u') # cs')) u prev rest caps"
| "firstMatch (Opt r) k u prev rest caps =
     (case firstMatch r (\<lambda>(u', p', r', cs'). if length u' = length u then None else k (u', p', r', cs'))
             u prev rest caps of
        Some y \<Rightarrow> Some y
      | None \<Rightarrow> k (u, prev, rest, caps))"
| "firstMatch (Cat r1 r2) k u prev rest caps =
     firstMatch r1 (\<lambda>(u', p', r', cs'). firstMatch r2 k u' p' r' cs') u prev rest caps"
| "firstMatch (Alt r1 r2) k u prev rest caps =
     (case firstMatch r1 k u prev rest caps of
        Some y \<Rightarrow> Some y
      | None \<Rightarrow> firstMatch r2 k u prev rest caps)"
| "firstMatch LineStart k u prev rest caps =
     (case prev of None \<Rightarrow> k (u, prev, rest, caps)
      | Some c \<Rightarrow> if isLineTerminator c then k (u, prev, rest, caps) else None)"
| "firstMatch LineEnd k u prev rest caps =
     (case rest of [] \<Rightarrow> k (u, prev, rest, caps)
      | c # _ \<Rightarrow> if isLineTerminator c then k (u, prev, rest, caps) else None)"
| "firstMatch InputStart k u prev rest caps =
     (case prev of None \<Rightarrow> k (u, prev, rest, caps) | Some c \<Rightarrow> None)"
| "firstMatch InputEnd k u prev rest caps =
     (case rest of [] \<Rightarrow> k (u, prev, rest, caps) | c # _ \<Rightarrow> None)"

definition shifted :: "jsstring \<Rightarrow> cont \<Rightarrow> cont" where
  "shifted u k = (\<lambda>(u2, p2, r2, cs2). k (u @ u2, p2, r2, cs2))"

lemma firstOf_append: "firstOf k (xs @ ys) = (case firstOf k xs of Some y \<Rightarrow> Some y | None \<Rightarrow> firstOf k ys)"
  by (induction xs) (auto split: option.splits)

lemma firstOf_map: "firstOf k (map f xs) = firstOf (k \<circ> f) xs"
  by (induction xs) (auto split: option.splits)

lemma firstOf_concat_map:
  "firstOf k (concat (map f xs)) = firstOf (\<lambda>x. firstOf k (f x)) xs"
  by (induction xs) (auto simp: firstOf_append split: option.splits)

lemma firstOf_filter:
  "firstOf k (filter P xs) = firstOf (\<lambda>x. if P x then k x else None) xs"
  by (induction xs) (auto split: option.splits)

lemma firstOf_single: "firstOf (shifted u k) [([], p, r, cs)] = k (u, p, r, cs)"
  by (simp add: shifted_def split: option.splits)

lemma firstOf_cong: "(\<And>x. x \<in> set xs \<Longrightarrow> k x = k' x) \<Longrightarrow> firstOf k xs = firstOf k' xs"
  by (induction xs) (auto split: option.splits)

lemma repeatFirst_firstOf:
  "repeatFirst cl g mn mx k u prev rest caps =
     firstOf (shifted u k) (repeatMatches cl g mn mx prev rest caps)"
proof (induction cl g mn mx prev rest caps arbitrary: u rule: repeatMatches.induct)
  case (1 cl g mn mx prev caps)
  show ?case by (simp add: shifted_def split: option.splits)
next
  case (2 cl g mn mx prev c cs caps)
  let ?cond = "inClass cl c \<and> mx \<noteq> Some 0"
  let ?rec = "repeatMatches cl g (mn - 1) (map_option (\<lambda>m. m - 1) mx) (Some c) cs caps"
  let ?more = "if ?cond then map (\<lambda>(u, p, r, caps'). (c # u, p, r, caps')) ?rec else []"
  let ?here = "if mn = 0 then [([], prev, c # cs, caps)] else []"
  have ih: "repeatFirst cl g (mn - 1) (map_option (\<lambda>m. m - 1) mx) k (u @ [c]) (Some c) cs caps =
      firstOf (shifted (u @ [c]) k) ?rec" if ?cond
    using that 2 [of "u @ [c]"] by (cases g) simp_all
  have "firstOf (shifted u k) (map (\<lambda>(u, p, r, caps'). (c # u, p, r, caps')) ?rec) =
      firstOf (shifted (u @ [c]) k) ?rec"
    unfolding firstOf_map by (rule firstOf_cong) (auto simp: shifted_def)
  then have more: "firstOf (shifted u k) ?more =
      (if ?cond
       then repeatFirst cl g (mn - 1) (map_option (\<lambda>m. m - 1) mx) k (u @ [c]) (Some c) cs caps
       else None)"
    using ih by simp
  have here: "firstOf (shifted u k) ?here = (if mn = 0 then k (u, prev, c # cs, caps) else None)"
    by (simp add: shifted_def split: option.splits)
  let ?rf = "if ?cond
       then repeatFirst cl g (mn - 1) (map_option (\<lambda>m. m - 1) mx) k (u @ [c]) (Some c) cs caps
       else None"
  let ?kh = "if mn = 0 then k (u, prev, c # cs, caps) else None"
  show ?case
  proof (cases g)
    case Greedy
    have M: "repeatMatches cl g mn mx prev (c # cs) caps = ?more @ ?here"
      by (simp add: Greedy)
    have L: "repeatFirst cl g mn mx k u prev (c # cs) caps =
        (case ?rf of Some y \<Rightarrow> Some y | None \<Rightarrow> ?kh)"
      by (simp add: Greedy)
    show ?thesis unfolding M L firstOf_append more here ..
  next
    case Lazy
    have M: "repeatMatches cl g mn mx prev (c # cs) caps = ?here @ ?more"
      by (simp add: Lazy)
    have L: "repeatFirst cl g mn mx k u prev (c # cs) caps =
        (case ?kh of Some y \<Rightarrow> Some y | None \<Rightarrow> ?rf)"
      by (simp add: Lazy cong: option.case_cong)
    show ?thesis unfolding M L firstOf_append more here ..
  qed
qed

lemma firstMatch_firstOf:
  "firstMatch re k u prev rest caps = firstOf (shifted u k) (matches re prev rest caps)"
proof (induction re arbitrary: k u prev rest caps)
  case (Lit l)
  show ?case by (simp add: shifted_def split: option.splits)
next
  case (Rep cl mn mx g)
  show ?case by (simp add: repeatFirst_firstOf)
next
  case (Group i r)
  let ?k = "\<lambda>(u', p', r', cs'). k (u', p', r', (i, drop (length u) u') # cs')"
  have "firstOf (shifted u ?k) xs =
      firstOf (shifted u k) (map (\<lambda>(u, p, r, cs). (u, p, r, (i, u) # cs)) xs)" for xs
    unfolding firstOf_map by (rule firstOf_cong) (auto simp: shifted_def)
  then show ?case by (simp add: Group)
next
  case (Opt r)
  let ?k = "\<lambda>(u', p', r', cs'). if length u' = length u then None else k (u', p', r', cs')"
  have "firstOf (shifted u ?k) xs =
      firstOf (shifted u k) (filter (\<lambda>(u, p, r, cs). u \<noteq> []) xs)" for xs
    unfolding firstOf_filter by (rule firstOf_cong) (auto simp: shifted_def)
  then have "firstMatch (Opt r) k u prev rest caps =
      (case firstOf (shifted u k) (filter (\<lambda>(u, p, r, cs). u \<noteq> []) (matches r prev rest caps)) of
         Some y \<Rightarrow> Some y
       | None \<Rightarrow> k (u, prev, rest, caps))"
    by (simp add: Opt)
  also have "\<dots> = firstOf (shifted u k) (matches (Opt r) prev rest caps)"
    unfolding matches.simps firstOf_append firstOf_single ..
  finally show ?case .
next
  case (Cat r1 r2)
  let ?k = "\<lambda>(u', p', r', cs'). firstMatch r2 k u' p' r' cs'"
  let ?F = "\<lambda>(u1, p1, rest1, caps1).
      map (\<lambda>(u2, p2, rest2, caps2). (u1 @ u2, p2, rest2, caps2)) (matches r2 p1 rest1 caps1)"
  have eq: "shifted u ?k x = firstOf (shifted u k) (?F x)" for x
  proof -
    obtain u1 p1 rest1 caps1 where x: "x = (u1, p1, rest1, caps1)" by (cases x)
    have "shifted u ?k x = firstOf (shifted (u @ u1) k) (matches r2 p1 rest1 caps1)"
      by (simp add: x shifted_def Cat.IH(2))
    also have "\<dots> = firstOf (shifted u k) (?F x)"
      unfolding x firstOf_map prod.case by (rule firstOf_cong) (auto simp: shifted_def)
    finally show ?thesis .
  qed
  have "firstOf (shifted u ?k) xs = firstOf (shifted u k) (concat (map ?F xs))" for xs
    unfolding firstOf_concat_map by (rule firstOf_cong) (rule eq)
  then show ?case by (simp add: Cat.IH(1))
next
  case (Alt r1 r2)
  show ?case unfolding firstMatch.simps matches.simps firstOf_append Alt ..
next
  case LineStart
  show ?case by (cases prev) (simp_all add: shifted_def split: option.splits)
next
  case LineEnd
  show ?case by (cases rest) (simp_all add: shifted_def split: option.splits)
next
  case InputStart
  show ?case by (cases prev) (simp_all add: shifted_def split: option.splits)
next
  case InputEnd
  show ?case by (cases rest) (simp_all add: shifted_def split: option.splits)
qed

lemma matchAt_firstMatch:
  "matchAt re rbefore rest =
     (case firstMatch re Some [] (case rbefore of [] \<Rightarrow> None | c # _ \<Rightarrow> Some c) rest [] of
        None \<Rightarrow> None
      | Some (u, p, r, caps) \<Rightarrow>
          Some \<lparr>matched = u, captured = caps, preceding = rbefore, after = r\<rparr>)"
proof -
  have "firstOf (shifted [] Some) xs = (case xs of [] \<Rightarrow> None | x # _ \<Rightarrow> Some x)" for xs :: "mres list"
    by (cases xs) (auto simp: shifted_def)
  then show ?thesis
    by (simp add: matchAt_def firstMatch_firstOf split: list.splits)
qed


subsection \<open>Members of the list of matches\<close>

lemma in_matches_Lit:
  "(u, p, r, cs) \<in> set (matches (Lit l) prev rest caps) \<longleftrightarrow>
     rest = l @ r \<and> u = l \<and> p = lastOr prev l \<and> cs = caps"
proof -
  have "take (length l) rest = l \<and> r = drop (length l) rest \<longleftrightarrow> rest = l @ r"
    by (metis append_eq_conv_conj)
  then show ?thesis by auto
qed

lemma in_matches_Cat:
  "(u, p, r, cs) \<in> set (matches (Cat r1 r2) prev rest caps) \<longleftrightarrow>
     (\<exists>u1 p1 rest1 caps1 u2.
        (u1, p1, rest1, caps1) \<in> set (matches r1 prev rest caps) \<and>
        (u2, p, r, cs) \<in> set (matches r2 p1 rest1 caps1) \<and> u = u1 @ u2)"
  (is "?l \<longleftrightarrow> ?r")
proof
  assume ?l
  then obtain y where y: "y \<in> set (matches r1 prev rest caps)"
    and x: "(u, p, r, cs) \<in> set ((\<lambda>(u1, p1, rest1, caps1).
                    map (\<lambda>(u2, p2, rest2, caps2). (u1 @ u2, p2, rest2, caps2))
                      (matches r2 p1 rest1 caps1)) y)"
    unfolding matches.simps set_concat set_map by blast
  obtain u1 p1 rest1 caps1 where y': "y = (u1, p1, rest1, caps1)" by (cases y)
  from x obtain z where z: "z \<in> set (matches r2 p1 rest1 caps1)"
    and x': "(u, p, r, cs) = (\<lambda>(u2, p2, rest2, caps2). (u1 @ u2, p2, rest2, caps2)) z"
    unfolding y' prod.case set_map by blast
  obtain u2 p2 rest2 caps2 where z': "z = (u2, p2, rest2, caps2)" by (cases z)
  from x' have "u = u1 @ u2" "p = p2" "r = rest2" "cs = caps2" unfolding z' by simp_all
  with y z show ?r unfolding y' z' by blast
next
  assume ?r
  then obtain u1 p1 rest1 caps1 u2 where
    a: "(u1, p1, rest1, caps1) \<in> set (matches r1 prev rest caps)" and
    b: "(u2, p, r, cs) \<in> set (matches r2 p1 rest1 caps1)" and c: "u = u1 @ u2"
    by blast
  from b have "(u, p, r, cs) \<in> set (map (\<lambda>(u2, p2, rest2, caps2). (u1 @ u2, p2, rest2, caps2))
      (matches r2 p1 rest1 caps1))"
    unfolding c set_map by (rule rev_image_eqI) simp
  then have "(u, p, r, cs) \<in> set ((\<lambda>(u1, p1, rest1, caps1).
                    map (\<lambda>(u2, p2, rest2, caps2). (u1 @ u2, p2, rest2, caps2))
                      (matches r2 p1 rest1 caps1)) (u1, p1, rest1, caps1))"
    by simp
  with a show ?l unfolding matches.simps set_concat set_map by blast
qed

lemma in_matches_Group:
  "(u, p, r, cs) \<in> set (matches (Group i re) prev rest caps) \<longleftrightarrow>
     (\<exists>cs'. (u, p, r, cs') \<in> set (matches re prev rest caps) \<and> cs = (i, u) # cs')"
  by (simp add: image_iff Bex_def split_def)

lemma in_matches_Opt:
  "(u, p, r, cs) \<in> set (matches (Opt re) prev rest caps) \<longleftrightarrow>
     (u, p, r, cs) = ([], prev, rest, caps) \<or>
     (u \<noteq> [] \<and> (u, p, r, cs) \<in> set (matches re prev rest caps))"
  by auto

lemma repeatMatches_min:
  "(u, p, r, cs) \<in> set (repeatMatches cl g mn mx prev rest caps) \<Longrightarrow> mn \<le> length u"
proof (induction cl g mn mx prev rest caps arbitrary: u p r rule: repeatMatches.induct)
  case (1 cl g mn mx prev caps)
  then show ?case by (simp split: if_splits)
next
  case (2 cl g mn mx prev c cs' caps)
  from "2.prems" consider
    (here) "mn = 0" |
    (more) u' where "inClass cl c \<and> mx \<noteq> Some 0" "u = c # u'"
      "(u', p, r, cs) \<in> set (repeatMatches cl g (mn - 1) (map_option (\<lambda>m. m - 1) mx) (Some c) cs' caps)"
    by (cases g) (auto split: if_splits)
  then show ?case
  proof cases
    case here
    then show ?thesis by simp
  next
    case more
    from "2.IH" [of u' p r] more have "mn - 1 \<le> length u'" by (cases g) auto
    with more show ?thesis by simp
  qed
qed

lemma in_matches_Rep:
  "(u, p, r, cs) \<in> set (matches (Rep cl mn mx g) prev rest caps) \<Longrightarrow>
     rest = u @ r \<and> cs = caps \<and> mn \<le> length u"
  using repeatMatches_split [of u p r cs cl g mn mx prev rest caps]
    repeatMatches_min [of u p r cs cl g mn mx prev rest caps] by simp

lemma seq_Cons: "seq (r # rs) = Cat r (seq rs)" and seq_Nil: "seq [] = Lit []"
  by (simp_all add: seq_def)


declare replaceLoop.simps [simp del]

lemma replaceLoop_Nil:
  "matchAt re rbefore [] = None \<Longrightarrow> replaceLoop re f rbefore [] = []"
  by (subst replaceLoop.simps) simp

lemma replaceLoop_skip:
  "matchAt re rbefore (c # cs) = None \<Longrightarrow>
   replaceLoop re f rbefore (c # cs) = c # replaceLoop re f (c # rbefore) cs"
  by (subst replaceLoop.simps) simp

lemma replaceLoop_match:
  "matchAt re rbefore rest = Some m \<Longrightarrow> matched m \<noteq> [] \<Longrightarrow>
   replaceLoop re f rbefore rest = f m @ replaceLoop re f (rev (matched m) @ rbefore) (after m)"
  by (subst replaceLoop.simps) simp

lemma replaceLoop_shrinks:
  assumes "\<And>rb r m. matchAt re rb r = Some m \<Longrightarrow> length (f m) < length (matched m)"
  shows "replaceLoop re f rbefore rest = rest \<or> length (replaceLoop re f rbefore rest) < length rest"
  using assms
proof (induction re f rbefore rest rule: replaceLoop.induct)
  case (1 re f rbefore rest)
  show ?case
  proof (cases "matchAt re rbefore rest")
    case None
    show ?thesis
    proof (cases rest)
      case Nil
      with None show ?thesis by (simp add: replaceLoop_Nil)
    next
      case (Cons c cs)
      from "1.IH"(1) [OF None Cons] "1.prems"
      have "replaceLoop re f (c # rbefore) cs = cs \<or> length (replaceLoop re f (c # rbefore) cs) < length cs"
        by blast
      moreover have "replaceLoop re f rbefore rest = c # replaceLoop re f (c # rbefore) cs"
        using None by (simp add: Cons replaceLoop_skip)
      ultimately show ?thesis by (auto simp: Cons)
    qed
  next
    case (Some m)
    from "1.prems" [OF Some] have lt: "length (f m) < length (matched m)" .
    then have ne: "matched m \<noteq> []" by auto
    from matchAt_split [OF Some] have rest: "rest = matched m @ after m" .
    from "1.IH"(3) [OF Some ne] "1.prems"
    have "replaceLoop re f (rev (matched m) @ rbefore) (after m) = after m \<or>
        length (replaceLoop re f (rev (matched m) @ rbefore) (after m)) < length (after m)"
      by blast
    then have "length (replaceLoop re f (rev (matched m) @ rbefore) (after m)) \<le> length (after m)"
      by auto
    moreover have "replaceLoop re f rbefore rest =
        f m @ replaceLoop re f (rev (matched m) @ rbefore) (after m)"
      by (rule replaceLoop_match [OF Some ne])
    ultimately have "length (replaceLoop re f rbefore rest) < length rest"
      using lt by (subst (2) rest) simp
    then show ?thesis ..
  qed
qed


section \<open>The template engine\<close>

subsection \<open>Values\<close>

text \<open>
  A value of the \<open>values\<close> record is a string, a number or a boolean. Numbers are embedded
  as integers, whose \<open>String\<close> is the decimal numeral (as it is below \<open>10^21\<close> in
  magnitude; fractions, larger numbers, \<open>NaN\<close> and the infinities are not embedded). The
  record itself is the list of its entries in the order of \<open>Object.entries\<close>. Reading \<open>values[name]\<close> gives the entry
  when there is one, and otherwise what a plain object inherits from \<open>Object.prototype\<close>
  under that name: a function or an object, which is neither \<open>undefined\<close>, \<open>false\<close>,
  \<open>''\<close> nor \<open>0\<close>.
\<close>

datatype jsvalue = JString jsstring | JNumber int | JBoolean bool

datatype jslookup = Undefined | Own jsvalue | Inherited

fun digitsOf :: "nat \<Rightarrow> jsstring" where
  "digitsOf n = (if n < 10 then [48 + n] else digitsOf (n div 10) @ [48 + n mod 10])"

declare digitsOf.simps [simp del]

definition numberToString :: "int \<Rightarrow> jsstring" where
  "numberToString n = (if n < 0 then 45 # digitsOf (nat (- n)) else digitsOf (nat n))"

fun jsString :: "jsvalue \<Rightarrow> jsstring" where
  "jsString (JString s) = s"
| "jsString (JNumber n) = numberToString n"
| "jsString (JBoolean b) = (if b then js ''true'' else js ''false'')"

definition objectPrototypeNames :: "jsstring list" where
  "objectPrototypeNames =
     [js ''constructor'', js ''hasOwnProperty'', js ''isPrototypeOf'',
      js ''propertyIsEnumerable'', js ''toLocaleString'', js ''toString'', js ''valueOf'',
      js ''__defineGetter__'', js ''__defineSetter__'', js ''__lookupGetter__'',
      js ''__lookupSetter__'', js ''__proto__'']"

definition getProperty :: "(jsstring \<times> jsvalue) list \<Rightarrow> jsstring \<Rightarrow> jslookup" where
  "getProperty values name =
     (case map_of values name of
        Some v \<Rightarrow> Own v
      | None \<Rightarrow> if name \<in> set objectPrototypeNames then Inherited else Undefined)"

fun isTruthy :: "jslookup \<Rightarrow> bool" where
  "isTruthy Undefined = False"
| "isTruthy Inherited = True"
| "isTruthy (Own (JBoolean b)) = b"
| "isTruthy (Own (JString s)) = (s \<noteq> [])"
| "isTruthy (Own (JNumber n)) = (n \<noteq> 0)"

subsection \<open>Replacement strings\<close>

text \<open>
  A capture that did not take part in the match is \<open>undefined\<close>; as a default parameter
  and in a replacement string it counts as the empty string.
\<close>

definition captureText :: "js_match \<Rightarrow> nat \<Rightarrow> jsstring" where
  "captureText m i = (case map_of (captured m) i of None \<Rightarrow> [] | Some t \<Rightarrow> t)"

text \<open>
  \<open>GetSubstitution\<close>: in a replacement string \<open>$$\<close> is a dollar sign, \<open>$&\<close> the matched
  text, \<open>$`\<close> the text before the match, \<open>$'\<close> the text after it, and \<open>$n\<close> or \<open>$nn\<close>
  the capture of that number when the pattern has that many groups (\<open>n\<close> is the number of
  groups); anything else stands for itself.
\<close>

definition isDigit :: "nat \<Rightarrow> bool" where
  "isDigit c = (48 \<le> c \<and> c \<le> 57)"

fun getSubstitution :: "nat \<Rightarrow> js_match \<Rightarrow> jsstring \<Rightarrow> jsstring" where
  "getSubstitution n m [] = []"
| "getSubstitution n m [c] = [c]"
| "getSubstitution n m (c # d # ds) =
     (if c \<noteq> 36 then c # getSubstitution n m (d # ds)
      else if d = 36 then 36 # getSubstitution n m ds
      else if d = 38 then matched m @ getSubstitution n m ds
      else if d = 96 then rev (preceding m) @ getSubstitution n m ds
      else if d = 39 then after m @ getSubstitution n m ds
      else if isDigit d then
        (case ds of
           [] \<Rightarrow> if 1 \<le> d - 48 \<and> d - 48 \<le> n then captureText m (d - 48) else [36, d]
         | e # es \<Rightarrow>
             if isDigit e \<and> 1 \<le> 10 * (d - 48) + (e - 48) \<and> 10 * (d - 48) + (e - 48) \<le> n
             then captureText m (10 * (d - 48) + (e - 48)) @ getSubstitution n m es
             else if 1 \<le> d - 48 \<and> d - 48 \<le> n
             then captureText m (d - 48) @ getSubstitution n m ds
             else 36 # d # getSubstitution n m ds)
      else 36 # getSubstitution n m (d # ds))"

fun groupCount :: "regex \<Rightarrow> nat" where
  "groupCount (Group i r) = max i (groupCount r)"
| "groupCount (Opt r) = groupCount r"
| "groupCount (Cat r1 r2) = max (groupCount r1) (groupCount r2)"
| "groupCount (Alt r1 r2) = max (groupCount r1) (groupCount r2)"
| "groupCount r = 0"

definition replaceString :: "regex \<Rightarrow> jsstring \<Rightarrow> jsstring \<Rightarrow> jsstring" where
  "replaceString re replacement s = replaceAll re (\<lambda>m. getSubstitution (groupCount re) m replacement) s"

subsection \<open>The pattern of a variable\<close>

text \<open>
  \<^verbatim>\<open>new RegExp(`\\{\\{\\s*${key}\\s*\\}\\}`, 'g')\<close>: the key is pasted into the source of
  the pattern unescaped. A key without syntax characters stands for itself. A \<open>|\<close> in the
  key splits the whole pattern into alternatives. The embedding covers these keys. A key
  with any other syntax character is outside the embedding: the result \<open>None\<close> says that
  the pattern is not embedded, whether \<open>new RegExp\<close> compiles it (as for \<open>a.b\<close>) or throws
  a \<open>SyntaxError\<close> (as for \<open>a(\<close>), and nothing is stated about \<open>processTemplate\<close> with
  such a key.
\<close>

definition isSyntaxCharacter :: "nat \<Rightarrow> bool" where
  "isSyntaxCharacter c = (c \<in> set (92 # js ''^$.*+?()[]{}|''))"

fun splitOn :: "nat \<Rightarrow> jsstring \<Rightarrow> jsstring list" where
  "splitOn d [] = [[]]"
| "splitOn d (c # cs) =
     (if c = d then [] # splitOn d cs
      else (case splitOn d cs of [] \<Rightarrow> [[c]] | p # ps \<Rightarrow> (c # p) # ps))"

definition variableRegex :: "jsstring \<Rightarrow> regex option" where
  "variableRegex key =
     (if list_ex (\<lambda>c. isSyntaxCharacter c \<and> c \<noteq> 124) key then None
      else Some
        (case splitOn 124 key of
           [] \<Rightarrow> Lit []
         | [k] \<Rightarrow>
             seq [Lit (js ''{{''), Rep Space 0 None Greedy, Lit k, Rep Space 0 None Greedy,
                  Lit (js ''}}'')]
         | k # ks \<Rightarrow>
             foldr Alt
               (seq [Lit (js ''{{''), Rep Space 0 None Greedy, Lit k] # map Lit (butlast ks))
               (seq [Lit (last ks), Rep Space 0 None Greedy, Lit (js ''}}'')])))"

text \<open>The loop over \<open>Object.entries(values)\<close>.\<close>

fun replaceVariables :: "(jsstring \<times> jsvalue) list \<Rightarrow> jsstring \<Rightarrow> jsstring option" where
  "replaceVariables [] processed = Some processed"
| "replaceVariables ((key, value) # entries) processed =
     (case variableRegex key of
        None \<Rightarrow> None
      | Some regex \<Rightarrow> replaceVariables entries (replaceString regex (jsString value) processed))"

subsection \<open>Conditional blocks\<close>

text \<open>
  \<^verbatim>\<open>/\{\{#if\s+(\w+)\}\}([\s\S]*?)(?:\{\{else\}\}([\s\S]*?))?\{\{\/if\}\}/g\<close>
\<close>

definition conditionalRegex :: regex where
  "conditionalRegex =
     seq [Lit (js ''{{#if''), Rep Space 1 None Greedy, Group 1 (Rep Word 1 None Greedy),
          Lit (js ''}}''), Group 2 (Rep AnyChar 0 None Lazy),
          Opt (seq [Lit (js ''{{else}}''), Group 3 (Rep AnyChar 0 None Lazy)]),
          Lit (js ''{{/if}}'')]"


text \<open>
  The callback of the replacement: \<open>varName\<close>, \<open>ifContent\<close> and \<open>elseContent\<close> are the
  captures 1, 2 and 3.
\<close>

definition conditionalReplacer :: "(jsstring \<times> jsvalue) list \<Rightarrow> js_match \<Rightarrow> jsstring" where
  "conditionalReplacer values m =
     (if isTruthy (getProperty values (captureText m 1)) then captureText m 2 else captureText m 3)"

definition conditionalPass :: "(jsstring \<times> jsvalue) list \<Rightarrow> jsstring \<Rightarrow> jsstring" where
  "conditionalPass values processed = replaceAll conditionalRegex (conditionalReplacer values) processed"


text \<open>
  Every match of the pattern is the opening tag, the content of the first branch, maybe
  \<open>{{else}}\<close> and the content of the second branch, and the closing tag; the captures are
  the name and the contents.
\<close>

lemma conditional_shape:
  assumes "(u, p, r, caps) \<in> set (matches conditionalRegex prev rest [])"
  shows "\<exists>ws n i. ws \<noteq> [] \<and> n \<noteq> [] \<and>
     ((caps = [(2, i), (1, n)] \<and> u = js ''{{#if'' @ ws @ n @ js ''}}'' @ i @ js ''{{/if}}'') \<or>
      (\<exists>e. caps = [(3, e), (2, i), (1, n)] \<and>
          u = js ''{{#if'' @ ws @ n @ js ''}}'' @ i @ js ''{{else}}'' @ e @ js ''{{/if}}''))"
proof -
  from assms obtain ws p1 r1 c1 u1 where
    ws: "(ws, p1, r1, c1) \<in> set (matches (Rep Space 1 None Greedy) (lastOr prev (js ''{{#if'')) (drop 5 rest) [])"
    and u: "u = js ''{{#if'' @ ws @ u1"
    and m1: "(u1, p, r, caps) \<in> set (matches (seq [Group 1 (Rep Word 1 None Greedy),
          Lit (js ''}}''), Group 2 (Rep AnyChar 0 None Lazy),
          Opt (seq [Lit (js ''{{else}}''), Group 3 (Rep AnyChar 0 None Lazy)]),
          Lit (js ''{{/if}}'')]) p1 r1 c1)"
    unfolding conditionalRegex_def seq_Cons [of "Lit (js ''{{#if'')"] seq_Cons [of "Rep Space 1 None Greedy"]
      in_matches_Cat in_matches_Lit
    by (auto simp: js_def)
  from in_matches_Rep [OF ws] have ws': "ws \<noteq> []" "c1 = []" by auto
  from m1 obtain n p2 r2 c2 u2 where
    n: "(n, p2, r2, c2) \<in> set (matches (Rep Word 1 None Greedy) p1 r1 c1)"
    and u1: "u1 = n @ js ''}}'' @ u2"
    and m2: "(u2, p, r, caps) \<in> set (matches (seq [Group 2 (Rep AnyChar 0 None Lazy),
          Opt (seq [Lit (js ''{{else}}''), Group 3 (Rep AnyChar 0 None Lazy)]),
          Lit (js ''{{/if}}'')]) (lastOr p2 (js ''}}'')) (drop 2 r2) ((1, n) # c2))"
    unfolding seq_Cons [of "Group 1 (Rep Word 1 None Greedy)"] seq_Cons [of "Lit (js ''}}'')"]
      in_matches_Cat in_matches_Lit in_matches_Group
    by (auto simp: js_def)
  from in_matches_Rep [OF n] have n': "n \<noteq> []" "c2 = []" using ws' by auto
  from m2 obtain i p3 r3 c3 u3 where
    i: "(i, p3, r3, c3) \<in> set (matches (Rep AnyChar 0 None Lazy) (lastOr p2 (js ''}}'')) (drop 2 r2) ((1, n) # c2))"
    and u2: "u2 = i @ u3"
    and m3: "(u3, p, r, caps) \<in> set (matches (seq [
          Opt (seq [Lit (js ''{{else}}''), Group 3 (Rep AnyChar 0 None Lazy)]),
          Lit (js ''{{/if}}'')]) p3 r3 ((2, i) # c3))"
    unfolding seq_Cons [of "Group 2 (Rep AnyChar 0 None Lazy)"]
      in_matches_Cat in_matches_Group
    by auto
  from in_matches_Rep [OF i] have i': "c3 = [(1, n)]" using n' by auto
  from m3 obtain o4 p4 r4 c4 where
    o4: "(o4, p4, r4, c4) \<in> set (matches (Opt (seq [Lit (js ''{{else}}''), Group 3 (Rep AnyChar 0 None Lazy)])) p3 r3 ((2, i) # c3))"
    and u3: "u3 = o4 @ js ''{{/if}}''" and caps: "caps = c4"
    unfolding seq_Cons [of "Opt (seq [Lit (js ''{{else}}''), Group 3 (Rep AnyChar 0 None Lazy)])"]
      seq_Cons [of "Lit (js ''{{/if}}'')"] seq_Nil
      in_matches_Cat in_matches_Lit
    by auto
  from o4 consider (skip) "o4 = []" "c4 = (2, i) # c3" |
    (else) e where "o4 = js ''{{else}}'' @ e" "c4 = (3, e) # (2, i) # c3"
    unfolding in_matches_Opt seq_Cons seq_Nil in_matches_Cat in_matches_Lit in_matches_Group
    by (auto dest!: repeatMatches_split)
  then show ?thesis
  proof cases
    case skip
    with ws' n' i' u u1 u2 u3 caps show ?thesis by auto
  next
    case else
    with ws' n' i' u u1 u2 u3 caps show ?thesis by auto
  qed
qed


lemma conditionalReplacer_shorter:
  assumes "matchAt conditionalRegex rb r = Some m"
  shows "length (conditionalReplacer values m) < length (matched m)"
proof -
  from assms obtain u p r' caps xs where
    ms: "matches conditionalRegex (case rb of [] \<Rightarrow> None | c # _ \<Rightarrow> Some c) r [] = (u, p, r', caps) # xs"
    and m: "m = \<lparr>matched = u, captured = caps, preceding = rb, after = r'\<rparr>"
    by (auto simp: matchAt_def split: list.splits)
  from ms have "(u, p, r', caps) \<in> set (matches conditionalRegex (case rb of [] \<Rightarrow> None | c # _ \<Rightarrow> Some c) r [])"
    by simp
  from conditional_shape [OF this] show ?thesis
    by (auto simp: m conditionalReplacer_def captureText_def js_def)
qed

lemma conditionalPass_shrinks:
  "conditionalPass values s = s \<or> length (conditionalPass values s) < length s"
  unfolding conditionalPass_def replaceAll_def
  by (rule replaceLoop_shrinks) (rule conditionalReplacer_shorter)

text \<open>
  The loop \<^verbatim>\<open>while (prevProcessed !== processed)\<close>. It terminates because a pass that
  changes the string makes it shorter.
\<close>

function resolveConditionals ::
  "(jsstring \<times> jsvalue) list \<Rightarrow> jsstring \<Rightarrow> jsstring \<Rightarrow> jsstring" where
  "resolveConditionals values prevProcessed processed =
     (if prevProcessed \<noteq> processed
      then resolveConditionals values processed (conditionalPass values processed)
      else processed)"
  by pat_completeness auto
termination
proof (relation "measure (\<lambda>(values, prevProcessed, processed).
    if prevProcessed = processed then 0 else Suc (length processed))")
  show "wf (measure (\<lambda>(values, prevProcessed, processed).
    if prevProcessed = processed then 0 else Suc (length processed)))"
    by simp
next
  fix "values" :: "(jsstring \<times> jsvalue) list" and prevProcessed processed :: jsstring
  assume "prevProcessed \<noteq> processed"
  then show "((values, processed, conditionalPass values processed), (values, prevProcessed, processed))
      \<in> measure (\<lambda>(values, prevProcessed, processed).
          if prevProcessed = processed then 0 else Suc (length processed))"
    using conditionalPass_shrinks [of "values" processed] by auto
qed

declare resolveConditionals.simps [simp del]

lemma resolveConditionals_fixed:
  assumes "conditionalPass values s = s"
  shows "resolveConditionals values prev s = s"
proof -
  have r: "resolveConditionals values s s = s"
    by (subst resolveConditionals.simps) simp
  show ?thesis
    by (subst resolveConditionals.simps) (simp add: assms r)
qed

subsection \<open>Cleaning up, and the whole function\<close>

text \<open>
  \<^verbatim>\<open>/\{\{\s*\w+\s*\}\}/g\<close>, \<^verbatim>\<open>/\{\{#if\s+\w+\}\}/g\<close> and \<^verbatim>\<open>/\{\{#unless\s+\w+\}\}/g\<close>; the other
  three patterns are literal.
\<close>

definition placeholderRegex :: regex where
  "placeholderRegex =
     seq [Lit (js ''{{''), Rep Space 0 None Greedy, Rep Word 1 None Greedy,
          Rep Space 0 None Greedy, Lit (js ''}}'')]"

definition ifOpenRegex :: regex where
  "ifOpenRegex = seq [Lit (js ''{{#if''), Rep Space 1 None Greedy, Rep Word 1 None Greedy, Lit (js ''}}'')]"

definition unlessOpenRegex :: regex where
  "unlessOpenRegex =
     seq [Lit (js ''{{#unless''), Rep Space 1 None Greedy, Rep Word 1 None Greedy, Lit (js ''}}'')]"

definition cleanUp :: "jsstring \<Rightarrow> jsstring" where
  "cleanUp processed =
     replaceString (Lit (js ''{{/unless}}'')) []
       (replaceString unlessOpenRegex []
         (replaceString (Lit (js ''{{/if}}'')) []
           (replaceString (Lit (js ''{{else}}'')) []
             (replaceString ifOpenRegex []
               (replaceString placeholderRegex (js ''[___]'') processed)))))"

definition processTemplate :: "jsstring \<Rightarrow> (jsstring \<times> jsvalue) list \<Rightarrow> jsstring option" where
  "processTemplate templateContent values =
     (case replaceVariables values templateContent of
        None \<Rightarrow> None
      | Some processed \<Rightarrow> Some (cleanUp (resolveConditionals values [] processed)))"

text \<open>The rules that evaluate \<open>processTemplate\<close> on a concrete template.\<close>

lemmas template_eval =
  processTemplate_def cleanUp_def replaceString_def replaceAll_def replaceLoop.simps
  resolveConditionals.simps
  matchAt_firstMatch conditionalPass_def conditionalReplacer_def captureText_def
  getProperty_def objectPrototypeNames_def variableRegex_def isSyntaxCharacter_def
  seq_def js_def conditionalRegex_def placeholderRegex_def ifOpenRegex_def unlessOpenRegex_def
  isWhiteSpace_def isWordChar_def isLineTerminator_def isDigit_def

subsection \<open>The scenario of the specification\<close>

text \<open>
  Claim C6. \<open>processTemplate\<close> on the template \<open>Hello {{#if vip}}VIP {{/if}}{{name}}!\<close>
  returns \<open>Hello VIP Ann!\<close> for the values \<open>{name: "Ann", vip: true}\<close>, \<open>Hello Ann!\<close> for
  \<open>{name: "Ann", vip: false}\<close>, and \<open>Hello VIP [___]!\<close> for \<open>{vip: true}\<close>, where the
  reference without a value becomes the placeholder.
\<close>

theorem processTemplate_hello_scenario:
  "processTemplate (js ''Hello {{#if vip}}VIP {{/if}}{{name}}!'')
     [(js ''name'', JString (js ''Ann'')), (js ''vip'', JBoolean True)] =
     Some (js ''Hello VIP Ann!'') \<and>
   processTemplate (js ''Hello {{#if vip}}VIP {{/if}}{{name}}!'')
     [(js ''name'', JString (js ''Ann'')), (js ''vip'', JBoolean False)] =
     Some (js ''Hello Ann!'') \<and>
   processTemplate (js ''Hello {{#if vip}}VIP {{/if}}{{name}}!'')
     [(js ''vip'', JBoolean True)] =
     Some (js ''Hello VIP [___]!'')"
  by (simp add: template_eval)

subsection \<open>Nested conditional blocks\<close>

text \<open>
  Claim C1 says that the template \<open>{{#if a}}{{#if b}}X{{else}}Y{{/if}}{{else}}Z{{/if}}\<close>
  gives \<open>Y\<close> for \<open>{a: true, b: false}\<close> and \<open>Z\<close> for \<open>{a: false}\<close>. The code gives \<open>Z\<close> and
  \<open>Y[___]Z\<close>: the lazy pattern pairs the outer \<open>{{#if a}}\<close> with the first \<open>{{else}}\<close> and
  the first \<open>{{/if}}\<close>, which belong to the inner block, so the first pass replaces
  \<open>{{#if a}}{{#if b}}X{{else}}Y{{/if}}\<close> by one of \<open>{{#if b}}X\<close> and \<open>Y\<close>, and the outer
  \<open>{{else}}Z{{/if}}\<close> is left over.
\<close>

theorem processTemplate_nested_conditionals:
  "processTemplate (js ''{{#if a}}{{#if b}}X{{else}}Y{{/if}}{{else}}Z{{/if}}'')
     [(js ''a'', JBoolean True), (js ''b'', JBoolean False)] = Some (js ''Z'') \<and>
   processTemplate (js ''{{#if a}}{{#if b}}X{{else}}Y{{/if}}{{else}}Z{{/if}}'')
     [(js ''a'', JBoolean False)] = Some (js ''Y[___]Z'') \<and>
   processTemplate (js ''{{#if a}}{{#if b}}X{{else}}Y{{/if}}{{else}}Z{{/if}}'')
     [(js ''a'', JBoolean False), (js ''b'', JBoolean True)] = Some (js ''Y[___]Z'')"
  by (simp add: template_eval)

subsection \<open>Termination of the loop over conditional blocks\<close>

lemma conditionalPass_Nil: "conditionalPass values [] = []"
  using conditionalPass_shrinks [of "values" "[]"] by simp

lemma resolveConditionals_passes:
  assumes "prev \<noteq> s"
  shows "\<exists>n\<le>length s. resolveConditionals values prev s = (conditionalPass values ^^ n) s \<and>
     conditionalPass values ((conditionalPass values ^^ n) s) = (conditionalPass values ^^ n) s"
  using assms
proof (induction "length s" arbitrary: prev s rule: less_induct)
  case less
  let ?t = "conditionalPass values s"
  have unfold: "resolveConditionals values prev s = resolveConditionals values s ?t"
    using less.prems by (subst resolveConditionals.simps) simp
  show ?case
  proof (cases "?t = s")
    case True
    then have "resolveConditionals values prev s = (conditionalPass values ^^ 0) s"
      unfolding unfold by (simp add: resolveConditionals_fixed)
    with True show ?thesis by (intro exI [of _ 0]) simp
  next
    case False
    with conditionalPass_shrinks [of "values" s] have lt: "length ?t < length s" by simp
    from less.hyps [OF lt, of s] False obtain n where
      n: "n \<le> length ?t" and
      r: "resolveConditionals values s ?t = (conditionalPass values ^^ n) ?t" and
      f: "conditionalPass values ((conditionalPass values ^^ n) ?t) = (conditionalPass values ^^ n) ?t"
      by auto
    have p: "(conditionalPass values ^^ n) ?t = (conditionalPass values ^^ Suc n) s"
      by (simp add: funpow_swap1)
    from n lt have "Suc n \<le> length s" by simp
    moreover from r p have "resolveConditionals values prev s = (conditionalPass values ^^ Suc n) s"
      unfolding unfold by simp
    moreover from f p have "conditionalPass values ((conditionalPass values ^^ Suc n) s) =
        (conditionalPass values ^^ Suc n) s"
      by simp
    ultimately show ?thesis by blast
  qed
qed

text \<open>
  Claim C10. The loop over the conditional blocks terminates for every template and every
  values record: a pass leaves the string unchanged or makes it strictly shorter, since the
  branch it puts in place of a block is a capture of the block without its tags. So the
  loop ends after at most as many changing passes as the string is long, with a string
  that the pass leaves unchanged.
\<close>

theorem resolveConditionals_terminates:
  "(conditionalPass values s = s \<or> length (conditionalPass values s) < length s) \<and>
   (\<exists>n\<le>length s.
      resolveConditionals values [] s = (conditionalPass values ^^ n) s \<and>
      conditionalPass values (resolveConditionals values [] s) = resolveConditionals values [] s)"
proof (cases "s = []")
  case True
  have "resolveConditionals values [] [] = []"
    by (subst resolveConditionals.simps) simp
  then show ?thesis by (simp add: True conditionalPass_Nil)
next
  case False
  then have "[] \<noteq> s" by simp
  from resolveConditionals_passes [OF this, of "values"] conditionalPass_shrinks [of "values" s]
  show ?thesis by auto
qed

subsection \<open>Templates without tokens\<close>

text \<open>
  A token is \<open>{{\<close> followed, anywhere later, by \<open>}}\<close>. Every pattern of the engine matches
  only text that begins with \<open>{{\<close> and ends with \<open>}}\<close>, provided the key of a variable
  has no syntax character.
\<close>

fun hasClose :: "jsstring \<Rightarrow> bool" where
  "hasClose (a # b # r) = ((a = 125 \<and> b = 125) \<or> hasClose (b # r))"
| "hasClose r = False"

fun hasToken :: "jsstring \<Rightarrow> bool" where
  "hasToken (a # b # r) = ((a = 123 \<and> b = 123 \<and> hasClose r) \<or> hasToken (b # r))"
| "hasToken r = False"

lemma hasClose_append: "hasClose (w @ 125 # 125 # r)"
  by (induction w rule: hasClose.induct) auto

lemma hasToken_Cons: "hasToken t \<Longrightarrow> hasToken (c # t)"
  by (cases t) auto

lemma hasToken_append: "hasToken t \<Longrightarrow> hasToken (w @ t)"
  by (induction w) (auto intro: hasToken_Cons)

lemma hasToken_open_close: "hasToken (123 # 123 # w @ 125 # 125 # r)"
  by (simp add: hasClose_append)

definition closes :: "regex \<Rightarrow> bool" where
  "closes re \<longleftrightarrow>
     (\<forall>u p r cs prev rest caps.
        (u, p, r, cs) \<in> set (matches re prev rest caps) \<longrightarrow> (\<exists>v. u = v @ [125, 125]))"

lemma closes_Lit: "closes (Lit (l @ [125, 125]))"
  by (auto simp: closes_def in_matches_Lit)

lemma closes_Cat: "closes r2 \<Longrightarrow> closes (Cat r1 r2)"
  unfolding closes_def in_matches_Cat by (metis append.assoc)

lemma closes_Cat_empty: "closes r1 \<Longrightarrow> closes (Cat r1 (Lit []))"
  unfolding closes_def in_matches_Cat in_matches_Lit by (metis append_Nil2)

lemma closes_seq: "closes (seq [r]) \<Longrightarrow> closes (seq (r0 # [r]))"
  and closes_seq_Cons: "closes (seq (r1 # rs)) \<Longrightarrow> closes (seq (r0 # r1 # rs))"
  by (simp_all add: seq_Cons closes_Cat)

lemma closes_seq_Lit: "closes (seq [Lit (l @ [125, 125])])"
  by (simp add: seq_Cons seq_Nil closes_Cat_empty closes_Lit)

lemma open_close_token:
  assumes "closes re" "(u, p, r, cs) \<in> set (matches (Cat (Lit (123 # 123 # l)) re) prev rest caps)"
  shows "hasToken rest"
proof -
  from assms(2) obtain u2 p1 rest1 where
    rest: "rest = (123 # 123 # l) @ rest1" and
    m: "(u2, p, r, cs) \<in> set (matches re p1 rest1 caps)"
    unfolding in_matches_Cat in_matches_Lit by blast
  from assms(1) m obtain v where "u2 = v @ [125, 125]" unfolding closes_def by blast
  with matches_split [OF m] have "rest1 = v @ 125 # 125 # r" by simp
  then show ?thesis unfolding rest using hasToken_open_close [of "l @ v" r] by simp
qed

lemma matchAt_in_matches:
  assumes "matchAt re rb rest = Some m"
  shows "\<exists>p prev. (matched m, p, after m, captured m) \<in> set (matches re prev rest [])"
proof -
  from assms obtain u p r caps xs where
    ms: "matches re (case rb of [] \<Rightarrow> None | c # _ \<Rightarrow> Some c) rest [] = (u, p, r, caps) # xs"
    and m: "m = \<lparr>matched = u, captured = caps, preceding = rb, after = r\<rparr>"
    by (auto simp: matchAt_def split: list.splits)
  from ms have "(u, p, r, caps) \<in> set (matches re (case rb of [] \<Rightarrow> None | c # _ \<Rightarrow> Some c) rest [])"
    by simp
  then show ?thesis unfolding m by auto
qed

definition tokenRegex :: "regex \<Rightarrow> bool" where
  "tokenRegex re \<longleftrightarrow> (\<forall>rb rest m. matchAt re rb rest = Some m \<longrightarrow> hasToken rest)"

lemma tokenRegex_seq:
  "closes (seq rs) \<Longrightarrow> tokenRegex (seq (Lit (123 # 123 # l) # rs))"
  unfolding tokenRegex_def seq_Cons
  by (auto dest!: matchAt_in_matches intro: open_close_token)

lemma tokenRegex_Lit: "tokenRegex (Lit (123 # 123 # l @ [125, 125]))"
  unfolding tokenRegex_def
proof (intro allI impI)
  fix rb rest m
  assume "matchAt (Lit (123 # 123 # l @ [125, 125])) rb rest = Some m"
  from matchAt_in_matches [OF this] have "rest = (123 # 123 # l @ [125, 125]) @ after m"
    unfolding in_matches_Lit by blast
  then show "hasToken rest" using hasToken_open_close [of l "after m"] by simp
qed

lemma tokenRegex_None: "tokenRegex re \<Longrightarrow> \<not> hasToken rest \<Longrightarrow> matchAt re rb rest = None"
  unfolding tokenRegex_def by (cases "matchAt re rb rest") blast+

lemma replaceLoop_no_token:
  assumes "tokenRegex re" "\<not> hasToken s"
  shows "replaceLoop re f rb s = s"
  using assms(2)
proof (induction s arbitrary: rb)
  case Nil
  from assms(1) have "matchAt re rb [] = None"
    by (rule tokenRegex_None) simp
  then show ?case by (rule replaceLoop_Nil)
next
  case (Cons c s)
  from assms(1) Cons.prems have none: "matchAt re rb (c # s) = None"
    by (rule tokenRegex_None)
  from Cons.prems have "\<not> hasToken s" by (auto dest: hasToken_Cons)
  with Cons.IH have "replaceLoop re f (c # rb) s = s" .
  with none show ?case by (simp add: replaceLoop_skip)
qed

lemma splitOn_absent: "d \<notin> set k \<Longrightarrow> splitOn d k = [k]"
  by (induction k) auto

lemma variableRegex_plain:
  assumes "\<not> list_ex isSyntaxCharacter key"
  shows "variableRegex key =
    Some (seq [Lit (js ''{{''), Rep Space 0 None Greedy, Lit key, Rep Space 0 None Greedy,
               Lit (js ''}}'')])"
proof -
  from assms have "124 \<notin> set key"
    by (auto simp: list_ex_iff isSyntaxCharacter_def js_def)
  then have "splitOn 124 key = [key]" by (rule splitOn_absent)
  moreover from assms have "\<not> list_ex (\<lambda>c. isSyntaxCharacter c \<and> c \<noteq> 124) key"
    by (auto simp: list_ex_iff)
  ultimately show ?thesis by (simp add: variableRegex_def)
qed

lemma js_braces:
  "js ''{{'' = 123 # 123 # []" "js ''}}'' = [] @ [125, 125]"
  "js ''{{#if'' = 123 # 123 # js ''#if''" "js ''{{#unless'' = 123 # 123 # js ''#unless''"
  "js ''{{/if}}'' = 123 # 123 # js ''/if'' @ [125, 125]"
  "js ''{{else}}'' = 123 # 123 # js ''else'' @ [125, 125]"
  "js ''{{/unless}}'' = 123 # 123 # js ''/unless'' @ [125, 125]"
  by (simp_all add: js_def)

lemma tokenRegex_variable:
  "tokenRegex (seq [Lit (js ''{{''), Rep Space 0 None Greedy, Lit key, Rep Space 0 None Greedy,
               Lit (js ''}}'')])"
  unfolding js_braces
  by (intro tokenRegex_seq closes_seq_Cons closes_seq_Lit)

lemma tokenRegex_conditional: "tokenRegex conditionalRegex"
proof -
  have "js ''{{/if}}'' = js ''{{/if'' @ [125, 125]" by (simp add: js_def)
  then show ?thesis
    unfolding conditionalRegex_def js_braces(3)
    by (simp only:) (intro tokenRegex_seq closes_seq_Cons closes_seq_Lit)
qed

lemma tokenRegex_cleanUp:
  "tokenRegex placeholderRegex" "tokenRegex ifOpenRegex" "tokenRegex unlessOpenRegex"
  "tokenRegex (Lit (js ''{{else}}''))" "tokenRegex (Lit (js ''{{/if}}''))"
  "tokenRegex (Lit (js ''{{/unless}}''))"
  unfolding placeholderRegex_def ifOpenRegex_def unlessOpenRegex_def js_braces
  by (intro tokenRegex_seq closes_seq_Cons closes_seq_Lit tokenRegex_Lit)+

lemma replaceString_no_token:
  "tokenRegex re \<Longrightarrow> \<not> hasToken s \<Longrightarrow> replaceString re replacement s = s"
  unfolding replaceString_def replaceAll_def by (rule replaceLoop_no_token)

lemma replaceVariables_no_token:
  assumes "\<not> hasToken s" "list_all (\<lambda>(key, value). \<not> list_ex isSyntaxCharacter key) values"
  shows "replaceVariables values s = Some s"
  using assms(2)
proof (induction "values")
  case Nil
  show ?case by simp
next
  case (Cons e es)
  obtain key v where e: "e = (key, v)" by (cases e)
  from Cons.prems have k: "\<not> list_ex isSyntaxCharacter key" and es: "list_all (\<lambda>(key, value). \<not> list_ex isSyntaxCharacter key) es"
    by (simp_all add: e)
  have "replaceVariables (e # es) s = replaceVariables es
      (replaceString (seq [Lit (js ''{{''), Rep Space 0 None Greedy, Lit key,
      Rep Space 0 None Greedy, Lit (js ''}}'')]) (jsString v) s)"
    unfolding e replaceVariables.simps variableRegex_plain [OF k] by simp
  also have "\<dots> = replaceVariables es s"
    by (simp only: replaceString_no_token [OF tokenRegex_variable assms(1)])
  also have "\<dots> = Some s" by (rule Cons.IH [OF es])
  finally show ?case .
qed

lemma cleanUp_no_token:
  assumes "\<not> hasToken s"
  shows "cleanUp s = s"
  unfolding cleanUp_def
  by (simp only: replaceString_no_token [OF tokenRegex_cleanUp(1) assms]
      replaceString_no_token [OF tokenRegex_cleanUp(2) assms]
      replaceString_no_token [OF tokenRegex_cleanUp(3) assms]
      replaceString_no_token [OF tokenRegex_cleanUp(4) assms]
      replaceString_no_token [OF tokenRegex_cleanUp(5) assms]
      replaceString_no_token [OF tokenRegex_cleanUp(6) assms])

lemma resolveConditionals_no_token:
  assumes "\<not> hasToken s"
  shows "resolveConditionals values prev s = s"
proof (rule resolveConditionals_fixed)
  show "conditionalPass values s = s"
    unfolding conditionalPass_def replaceAll_def
    by (rule replaceLoop_no_token [OF tokenRegex_conditional assms])
qed

text \<open>
  With keys that are simple names, without a syntax character of patterns, a string without
  tokens is returned unchanged.
\<close>

lemma processTemplate_resolved_noop:
  assumes "\<not> hasToken s" "list_all (\<lambda>(key, value). \<not> list_ex isSyntaxCharacter key) values"
  shows "processTemplate s values = Some s"
  unfolding processTemplate_def replaceVariables_no_token [OF assms]
  by (simp only: option.case resolveConditionals_no_token [OF assms(1)] cleanUp_no_token [OF assms(1)])

lemma processTemplate_resolved_noop_example:
  "\<not> hasToken (js ''Dear Ann, {see} }} below'') \<and>
   list_all (\<lambda>(key, value). \<not> list_ex isSyntaxCharacter key)
     [(js ''name'', JString (js ''Ann'')), (js ''vip'', JBoolean True)] \<and>
   processTemplate (js ''Dear Ann, {see} }} below'')
     [(js ''name'', JString (js ''Ann'')), (js ''vip'', JBoolean True)] =
     Some (js ''Dear Ann, {see} }} below'')"
proof -
  have plain: "\<not> hasToken (js ''Dear Ann, {see} }} below'')"
    by (simp add: js_def)
  have keys: "list_all (\<lambda>(key, value). \<not> list_ex isSyntaxCharacter key)
     [(js ''name'', JString (js ''Ann'')), (js ''vip'', JBoolean True)]"
    by (simp add: js_def isSyntaxCharacter_def)
  from plain keys processTemplate_resolved_noop [OF plain keys] show ?thesis by simp
qed

text \<open>
  Claim C9 says that \<open>processTemplate\<close> returns a string without tokens unchanged, for every
  values record. The function escapes the braces of the pattern of a variable and pastes
  the key unescaped; a \<open>|\<close> in the key then separates alternatives of the whole pattern.
  The key \<open>|\<close> gives \<^verbatim>\<open>\{\{\s*|\s*\}\}\<close>, whose second alternative matches \<open>}}\<close>, and the key
  \<open>yes|no\<close> gives \<^verbatim>\<open>\{\{\s*yes|no\s*\}\}\<close>, whose second alternative matches \<open>no }}\<close>: both
  strings have no token, and both are changed.
\<close>

theorem processTemplate_unescaped_key:
  "\<not> hasToken (js ''}}'') \<and>
   processTemplate (js ''}}'') [(js ''|'', JString (js ''x''))] = Some (js ''x'') \<and>
   js ''x'' \<noteq> js ''}}'' \<and>
   \<not> hasToken (js ''say no }}'') \<and>
   processTemplate (js ''say no }}'') [(js ''yes|no'', JString (js ''maybe''))] =
     Some (js ''say maybe'') \<and>
   js ''say maybe'' \<noteq> js ''say no }}''"
  by (simp add: template_eval)

section \<open>Validation of the values of a template\<close>

subsection \<open>The function \<open>validateVariables\<close>\<close>


text \<open>
  The interface \<open>TemplateVariable\<close> is imported by the module of \<open>validateVariables\<close>;
  the function reads the fields below and no other. An optional field is an option, a number
  is an integer, and \<open>label\<close> is a string, as it is interpolated into the messages.
\<close>

record validationRules =
  pattern :: "jsstring option"
  min' :: "int option"
  max' :: "int option"
  minLength :: "int option"
  maxLength :: "int option"

record templateVariable =
  name :: jsstring
  label :: jsstring
  required :: bool
  validation :: "validationRules option"












subsection \<open>The error of one variable\<close>











subsection \<open>The checks that a value fails\<close>






















end
